theory Spec2Isabelle
  imports Main "HOL-Library.Multiset" "HOL-Library.Signed_Division"
begin

section \<open>The program state\<close>

text \<open>
  The program keeps two global arrays of C \<open>int\<close>: the dataset \<open>A\<close> and the scratch
  buffer \<open>B\<close>, both allocated by the driver. They are the two fields of the state. The
  elements are only compared and copied, never computed with, so they are integers with
  the usual order. Indices are C \<open>int\<close>s as well and therefore signed: a range may have
  \<open>right = -1\<close>. Reading or writing an array outside its bounds is undefined in C; the
  model makes it the result \<open>None\<close>, so that every theorem saying that a function yields
  \<open>Some\<close> state also says that all its accesses were inside the arrays.

  Index arithmetic is on mathematical integers, with the one overflow that index ranges
  of C \<open>int\<close>s can meet written out: the subtraction in the split point (see \<open>midpoint\<close>).
  The other operations are \<open>i++\<close>, \<open>j++\<close> and \<open>k++\<close> on an index that has just been used
  to access an array, \<open>mid + 1\<close> for a \<open>mid\<close> below \<open>right\<close>, \<open>level + 1\<close> for a \<open>level\<close> below
  \<open>cutoff\<close>, and the count \<open>rightend - leftstart + 1\<close> of the \<open>memcpy\<close>, which the model
  refuses unless it is the length of a block of both arrays. None of them leaves the
  range of a C \<open>int\<close> while the arrays have at most \<open>INT_MAX\<close> elements, which is what the
  driver's \<open>int size\<close> can express.
\<close>

record state =
  A :: "int list"
  B :: "int list"

text \<open>
  Modelled from the spec: \<open>struct argument\<close> is declared in \<open>mergesort.h\<close>, which is not
  among the sources. Its fields are those of the spec's range descriptor,
  \<open>{left, right, level}\<close>; they are the three fields that \<open>buildArgs\<close> writes and
  \<open>parallel_mergesort\<close> reads, each into an \<open>int\<close>.
\<close>

record argument =
  left :: int
  right :: int
  level :: int

definition in_bounds :: "int list \<Rightarrow> int \<Rightarrow> bool" where
  "in_bounds xs i \<longleftrightarrow> 0 \<le> i \<and> i < int (length xs)"

text \<open>The values of a C \<open>int\<close> (32 bits).\<close>

definition c_int :: "int \<Rightarrow> bool" where
  "c_int x \<longleftrightarrow> - (2 ^ 31) \<le> x \<and> x < 2 ^ 31"

section \<open>merge\<close>

text \<open>
  The three loops of \<open>merge\<close> carry one variable that the C code does not have: a list of
  the assignments they have made. Each assignment \<open>B[k] = A[i]\<close> appends the pair
  \<open>(k, i)\<close> to it. The list is never read, so it changes neither a branch nor a value;
  it records which element of \<open>A\<close> every write copies, which the arrays alone cannot
  tell when two elements are equal.
\<close>

type_synonym move = "int \<times> int"

text \<open>
  The first loop of \<open>merge\<close>:
  \<^verbatim>\<open>while (i <= leftend && j <= rightend) B[k++] = (A[i] <= A[j]) ? A[i++] : A[j++];\<close>
  The function returns the loop variables, the list of assignments and the state at the
  exit of the loop.
\<close>

function merge_loop1 ::
  "int \<Rightarrow> int \<Rightarrow> int \<Rightarrow> int \<Rightarrow> int \<Rightarrow> move list \<Rightarrow> state
     \<Rightarrow> (int \<times> int \<times> int \<times> move list \<times> state) option" where
  "merge_loop1 leftend rightend i j k mvs s =
     (if i \<le> leftend \<and> j \<le> rightend then
        (if in_bounds (A s) i \<and> in_bounds (A s) j \<and> in_bounds (B s) k then
           (if A s ! nat i \<le> A s ! nat j
            then merge_loop1 leftend rightend (i + 1) j (k + 1) (mvs @ [(k, i)])
                   (s\<lparr>B := (B s)[nat k := A s ! nat i]\<rparr>)
            else merge_loop1 leftend rightend i (j + 1) (k + 1) (mvs @ [(k, j)])
                   (s\<lparr>B := (B s)[nat k := A s ! nat j]\<rparr>))
         else None)
      else Some (i, j, k, mvs, s))"
  by pat_completeness auto
termination
  by (relation "measure (\<lambda>(leftend, rightend, i, j, k, mvs, s).
        nat (leftend + 1 - i) + nat (rightend + 1 - j))") auto

declare merge_loop1.simps [simp del]

text \<open>The second loop: \<^verbatim>\<open>while (i <= leftend) B[k++] = A[i++];\<close>\<close>

function merge_loop2 ::
  "int \<Rightarrow> int \<Rightarrow> int \<Rightarrow> move list \<Rightarrow> state \<Rightarrow> (int \<times> int \<times> move list \<times> state) option" where
  "merge_loop2 leftend i k mvs s =
     (if i \<le> leftend then
        (if in_bounds (A s) i \<and> in_bounds (B s) k
         then merge_loop2 leftend (i + 1) (k + 1) (mvs @ [(k, i)])
                (s\<lparr>B := (B s)[nat k := A s ! nat i]\<rparr>)
         else None)
      else Some (i, k, mvs, s))"
  by pat_completeness auto
termination
  by (relation "measure (\<lambda>(leftend, i, k, mvs, s). nat (leftend + 1 - i))") auto

declare merge_loop2.simps [simp del]

text \<open>The third loop: \<^verbatim>\<open>while (j <= rightend) B[k++] = A[j++];\<close>\<close>

function merge_loop3 ::
  "int \<Rightarrow> int \<Rightarrow> int \<Rightarrow> move list \<Rightarrow> state \<Rightarrow> (int \<times> int \<times> move list \<times> state) option" where
  "merge_loop3 rightend j k mvs s =
     (if j \<le> rightend then
        (if in_bounds (A s) j \<and> in_bounds (B s) k
         then merge_loop3 rightend (j + 1) (k + 1) (mvs @ [(k, j)])
                (s\<lparr>B := (B s)[nat k := A s ! nat j]\<rparr>)
         else None)
      else Some (j, k, mvs, s))"
  by pat_completeness auto
termination
  by (relation "measure (\<lambda>(rightend, j, k, mvs, s). nat (rightend + 1 - j))") auto

declare merge_loop3.simps [simp del]

text \<open>
  \<^verbatim>\<open>memcpy(&A[start], &B[start], n * sizeof(int))\<close>: \<open>n\<close> elements of \<open>B\<close> from index
  \<open>start\<close> replace the \<open>n\<close> elements of \<open>A\<close> from the same index. A negative count
  (converted to a huge \<open>size_t\<close>) or a block that leaves either array is undefined.
  The two arrays are separate allocations, so the blocks never overlap.
\<close>

definition memcpy_A_B :: "int \<Rightarrow> int \<Rightarrow> state \<Rightarrow> state option" where
  "memcpy_A_B start n s =
     (if 0 \<le> n \<and> 0 \<le> start \<and> start + n \<le> int (length (A s)) \<and> start + n \<le> int (length (B s))
      then Some (s\<lparr>A := take (nat start) (A s) @ take (nat n) (drop (nat start) (B s))
                          @ drop (nat (start + n)) (A s)\<rparr>)
      else None)"

text \<open>
  The body of \<open>merge\<close>: the three loops from \<open>i = leftstart\<close>, \<open>j = rightstart\<close>,
  \<open>k = leftstart\<close> and an empty list of assignments, then the \<open>memcpy\<close>. \<open>merge_traced\<close>
  returns the list of assignments beside the state; \<open>merge\<close> is the same run with the
  list dropped, which is what the C function leaves behind.
\<close>

definition merge_traced ::
  "int \<Rightarrow> int \<Rightarrow> int \<Rightarrow> int \<Rightarrow> state \<Rightarrow> (move list \<times> state) option" where
  "merge_traced leftstart leftend rightstart rightend s =
     (case merge_loop1 leftend rightend leftstart rightstart leftstart [] s of
        None \<Rightarrow> None
      | Some (i, j, k, mvs1, s1) \<Rightarrow>
          (case merge_loop2 leftend i k mvs1 s1 of
             None \<Rightarrow> None
           | Some (i', k', mvs2, s2) \<Rightarrow>
               (case merge_loop3 rightend j k' mvs2 s2 of
                  None \<Rightarrow> None
                | Some (j', k'', mvs3, s3) \<Rightarrow>
                    (case memcpy_A_B leftstart (rightend - leftstart + 1) s3 of
                       None \<Rightarrow> None
                     | Some s' \<Rightarrow> Some (mvs3, s')))))"

definition merge :: "int \<Rightarrow> int \<Rightarrow> int \<Rightarrow> int \<Rightarrow> state \<Rightarrow> state option" where
  "merge leftstart leftend rightstart rightend s =
     map_option snd (merge_traced leftstart leftend rightstart rightend s)"

section \<open>my\_mergesort\<close>

text \<open>
  The split point \<^verbatim>\<open>left + (right - left) / 2\<close>. C's \<open>/\<close> on \<open>int\<close> truncates towards
  zero; that is \<open>sdiv\<close>. \<open>left\<close> and \<open>right\<close> are C \<open>int\<close>s, and when their difference is not
  one, the subtraction overflows: that is undefined in C, and \<open>None\<close> here. (On a machine
  that wraps, \<open>right - left\<close> then comes out negative and the split point lies below
  \<open>left\<close>.) When the difference is a C \<open>int\<close> and \<open>left < right\<close>, the quotient and the sum
  lie between \<open>left\<close> and \<open>right\<close>, so nothing else overflows. The functions of the model
  are defined on all integers; arguments that are not C \<open>int\<close>s are no calls of the C
  program, and on them the split point is the mathematical value, so that the
  statements about arrays below need no bound on the length of a list.
\<close>

definition midpoint :: "int \<Rightarrow> int \<Rightarrow> int option" where
  "midpoint l r =
     (if c_int l \<and> c_int r \<and> \<not> c_int (r - l) then None
      else Some (l + (r - l) sdiv 2))"

text \<open>
  The recursion is on the width of the range, which both recursive calls make smaller.
\<close>

function my_mergesort :: "int \<Rightarrow> int \<Rightarrow> state \<Rightarrow> state option" where
  "my_mergesort l r s =
     (if l \<ge> r then Some s
      else
        (case midpoint l r of
           None \<Rightarrow> None
         | Some mid \<Rightarrow>
             (case my_mergesort l mid s of
                None \<Rightarrow> None
              | Some s1 \<Rightarrow>
                  (case my_mergesort (mid + 1) r s1 of
                     None \<Rightarrow> None
                   | Some s2 \<Rightarrow> merge l mid (mid + 1) r s2))))"
  by pat_completeness auto
termination
proof (relation "measure (\<lambda>(l, r, s). nat (r - l))")
  show "wf (measure (\<lambda>(l, r, s). nat (r - l)))"
    by simp
next
  fix l r mid :: int and s :: state
  assume "\<not> r \<le> l" and "midpoint l r = Some mid"
  then have "l \<le> mid \<and> mid < r"
    by (auto simp: midpoint_def signed_divide_int_def sgn_if split: if_splits)
  then show "((l, mid, s), l, r, s) \<in> measure (\<lambda>(l, r, s). nat (r - l))"
    by simp
next
  fix l r mid :: int and s s1 :: state
  assume "\<not> r \<le> l" and "midpoint l r = Some mid"
  then have "l \<le> mid \<and> mid < r"
    by (auto simp: midpoint_def signed_divide_int_def sgn_if split: if_splits)
  then show "((mid + 1, r, s1), l, r, s) \<in> measure (\<lambda>(l, r, s). nat (r - l))"
    by simp
qed

declare my_mergesort.simps [simp del]

section \<open>buildArgs and parallel\_mergesort\<close>

text \<open>
  \<open>buildArgs\<close> allocates a descriptor and fills its three fields. (When \<open>malloc\<close> fails
  the code writes through a null pointer and does not return; the model takes the
  allocation to succeed.)
\<close>

definition buildArgs :: "int \<Rightarrow> int \<Rightarrow> int \<Rightarrow> argument" where
  "buildArgs l r lev = \<lparr>left = l, right = r, level = lev\<rparr>"

text \<open>
  \<open>parallel_mergesort\<close> reads the global \<open>cutoff\<close>, which the driver sets before the call
  and nobody changes; it is a parameter here.

  In the third branch the code calls \<open>pthread_create\<close> once per half, drops both results,
  joins both threads and merges. \<open>pthread_create\<close> can fail (\<open>EAGAIN\<close> when the system is
  out of threads), and then the routine never runs on that descriptor. What the system
  answers is the parameter \<open>created\<close>: \<open>created d\<close> says that the creation of the thread
  for the descriptor \<open>d\<close> succeeds. No two calls of \<open>pthread_create\<close> in one sort pass
  the same descriptor, so a predicate on descriptors describes every pattern of
  failures. After a failed creation the code still calls \<open>pthread_join\<close> and \<open>merge\<close>;
  the join of a thread that does not exist is taken to return at once, its error
  dropped like the first.

  A thread that was created runs \<open>parallel_mergesort\<close> on its descriptor. The thread for
  \<open>[left, mid]\<close> reads and writes only the indices \<open>left..mid\<close> of the two arrays and the
  other thread only \<open>mid+1..right\<close> (lemmas \<open>parallel_mergesort_local\<close> and
  \<open>children_commute\<close> below), so the state at the join is the one reached by running
  the two children one after the other, in either order. The model runs the left child
  first. The release of the descriptors by \<open>free\<close> is not part of the array state.
\<close>

function parallel_mergesort ::
  "int \<Rightarrow> (argument \<Rightarrow> bool) \<Rightarrow> argument \<Rightarrow> state \<Rightarrow> state option" where
  "parallel_mergesort cutoff created a s =
     (let l = left a; r = right a; lev = level a in
      if l \<ge> r then Some s
      else if lev \<ge> cutoff then my_mergesort l r s
      else
        (case midpoint l r of
           None \<Rightarrow> None
         | Some mid \<Rightarrow>
             (let leftArg = buildArgs l mid (lev + 1);
                  rightArg = buildArgs (mid + 1) r (lev + 1)
              in case (if created leftArg then parallel_mergesort cutoff created leftArg s
                       else Some s) of
                   None \<Rightarrow> None
                 | Some s1 \<Rightarrow>
                     (case (if created rightArg then parallel_mergesort cutoff created rightArg s1
                            else Some s1) of
                        None \<Rightarrow> None
                      | Some s2 \<Rightarrow> merge l mid (mid + 1) r s2))))"
  by pat_completeness auto
termination
proof (relation "measure (\<lambda>(cutoff, created, a, s). nat (right a - left a))")
  show "wf (measure (\<lambda>(cutoff, created, a, s). nat (right a - left a)))"
    by simp
next
  fix cutoff :: int and created :: "argument \<Rightarrow> bool" and a leftArg :: argument
    and s :: state and l r lev mid :: int
  assume "l = left a" and "r = right a" and "\<not> r \<le> l" and "midpoint l r = Some mid"
    and "leftArg = buildArgs l mid (lev + 1)"
  moreover from this have "l \<le> mid \<and> mid < r"
    by (auto simp: midpoint_def signed_divide_int_def sgn_if split: if_splits)
  ultimately show "((cutoff, created, leftArg, s), cutoff, created, a, s)
            \<in> measure (\<lambda>(cutoff, created, a, s). nat (right a - left a))"
    by (simp add: buildArgs_def)
next
  fix cutoff :: int and created :: "argument \<Rightarrow> bool" and a rightArg :: argument
    and s s1 :: state and l r lev mid :: int
  assume "l = left a" and "r = right a" and "\<not> r \<le> l" and "midpoint l r = Some mid"
    and "rightArg = buildArgs (mid + 1) r (lev + 1)"
  moreover from this have "l \<le> mid \<and> mid < r"
    by (auto simp: midpoint_def signed_divide_int_def sgn_if split: if_splits)
  ultimately show "((cutoff, created, rightArg, s1), cutoff, created, a, s)
            \<in> measure (\<lambda>(cutoff, created, a, s). nat (right a - left a))"
    by (simp add: buildArgs_def)
qed

declare parallel_mergesort.simps [simp del]

section \<open>The driver's check\<close>

text \<open>
  \<open>is_sorted(size)\<close> of the test driver:
  \<^verbatim>\<open>for (int i = 0; i < size - 1; i++) if (A[i] > A[i + 1]) return false; return true;\<close>
\<close>

function is_sorted_loop :: "int \<Rightarrow> int \<Rightarrow> state \<Rightarrow> bool option" where
  "is_sorted_loop n i s =
     (if i < n - 1 then
        (if in_bounds (A s) i \<and> in_bounds (A s) (i + 1) then
           (if A s ! nat i > A s ! nat (i + 1) then Some False
            else is_sorted_loop n (i + 1) s)
         else None)
      else Some True)"
  by pat_completeness auto
termination
  by (relation "measure (\<lambda>(n, i, s). nat (n - i))") auto

declare is_sorted_loop.simps [simp del]

definition is_sorted :: "int \<Rightarrow> state \<Rightarrow> bool option" where
  "is_sorted n s = is_sorted_loop n 0 s"

section \<open>Notions used in the statements\<close>

text \<open>The elements of an array at the indices \<open>l..r\<close>, both ends included.\<close>

definition slice :: "int list \<Rightarrow> int \<Rightarrow> int \<Rightarrow> int list" where
  "slice xs l r = take (nat (r + 1 - l)) (drop (nat l) xs)"

text \<open>
  \<open>merge_ranges_ok\<close> holds when a call \<open>merge(leftstart, leftend, rightstart, rightend)\<close> is
  on two adjacent index ranges of both arrays, \<open>[leftstart, leftend]\<close> and
  \<open>[rightstart, rightend]\<close>; either range may be empty, with its start one beyond its end.
\<close>

definition merge_ranges_ok :: "int \<Rightarrow> int \<Rightarrow> int \<Rightarrow> int \<Rightarrow> state \<Rightarrow> bool" where
  "merge_ranges_ok leftstart leftend rightstart rightend s \<longleftrightarrow>
     0 \<le> leftstart \<and> leftstart \<le> leftend + 1 \<and> rightstart = leftend + 1 \<and>
     rightstart \<le> rightend + 1 \<and>
     rightend < int (length (A s)) \<and> rightend < int (length (B s))"

text \<open>
  The merge of two lists that takes the head of the first list unless the head of the
  second is strictly smaller: what the three loops of \<open>merge\<close> write to \<open>B\<close>.
\<close>

fun merged :: "int list \<Rightarrow> int list \<Rightarrow> int list" where
  "merged [] vs = vs"
| "merged us [] = us"
| "merged (u # us) (v # vs) =
     (if u \<le> v then u # merged us (v # vs) else v # merged (u # us) vs)"

text \<open>The three loops of \<open>merge\<close> in sequence, without the final \<open>memcpy\<close>.\<close>

definition merge_loops ::
  "int \<Rightarrow> int \<Rightarrow> int \<Rightarrow> int \<Rightarrow> int \<Rightarrow> move list \<Rightarrow> state \<Rightarrow> (move list \<times> state) option" where
  "merge_loops leftend rightend i j k mvs s =
     (case merge_loop1 leftend rightend i j k mvs s of
        None \<Rightarrow> None
      | Some (i1, j1, k1, mvs1, s1) \<Rightarrow>
          (case merge_loop2 leftend i1 k1 mvs1 s1 of
             None \<Rightarrow> None
           | Some (i2, k2, mvs2, s2) \<Rightarrow>
               (case merge_loop3 rightend j1 k2 mvs2 s2 of
                  None \<Rightarrow> None
                | Some (j3, k3, mvs3, s3) \<Rightarrow> Some (mvs3, s3))))"

text \<open>
  The indices of \<open>A\<close> that the successive assignments \<open>B[k++] = ...\<close> of the three loops
  read, as a function of the contents of \<open>A\<close>: the first branch is the first loop
  (\<open>A[i++]\<close> when \<open>A[i] <= A[j]\<close>, else \<open>A[j++]\<close>), the second branch the second loop and
  the third branch the third loop. It is used in the proofs only; lemma
  \<open>merge_traced_moves\<close> shows that the list of assignments of every call of \<open>merge\<close> that
  returns is \<open>moves_from leftstart\<close> of this list.
\<close>

function merge_sources :: "int list \<Rightarrow> int \<Rightarrow> int \<Rightarrow> int \<Rightarrow> int \<Rightarrow> int list" where
  "merge_sources a leftend rightend i j =
     (if i \<le> leftend \<and> j \<le> rightend then
        (if a ! nat i \<le> a ! nat j
         then i # merge_sources a leftend rightend (i + 1) j
         else j # merge_sources a leftend rightend i (j + 1))
      else if i \<le> leftend then i # merge_sources a leftend rightend (i + 1) j
      else if j \<le> rightend then j # merge_sources a leftend rightend i (j + 1)
      else [])"
  by pat_completeness auto
termination
  by (relation "measure (\<lambda>(a, leftend, rightend, i, j).
        nat (leftend + 1 - i) + nat (rightend + 1 - j))") auto

declare merge_sources.simps [simp del]

text \<open>The assignments \<open>B[k] = A[i\<^sub>0]\<close>, \<open>B[k + 1] = A[i\<^sub>1]\<close>, ... for a list of indices.\<close>

fun moves_from :: "int \<Rightarrow> int list \<Rightarrow> move list" where
  "moves_from k [] = []"
| "moves_from k (i # is) = (k, i) # moves_from (k + 1) is"

text \<open>
  What a call of \<open>parallel_mergesort\<close> on the descriptor \<open>a\<close> leaves in its range when the
  range holds \<open>xs\<close>, as a function on lists (lemma \<open>parallel_mergesort_decomp\<close>): the serial
  sort sorts, and a fan-out merges what its two threads leave, a thread that was not
  created leaving its half as it is. It is used in the proofs only.
\<close>

function par_sort :: "int \<Rightarrow> (argument \<Rightarrow> bool) \<Rightarrow> argument \<Rightarrow> int list \<Rightarrow> int list" where
  "par_sort cutoff created a xs =
     (if left a \<ge> right a then xs
      else if level a \<ge> cutoff then sort xs
      else
        (case midpoint (left a) (right a) of
           None \<Rightarrow> xs
         | Some mid \<Rightarrow>
             merged
               (if created (buildArgs (left a) mid (level a + 1))
                then par_sort cutoff created (buildArgs (left a) mid (level a + 1))
                       (take (nat (mid + 1 - left a)) xs)
                else take (nat (mid + 1 - left a)) xs)
               (if created (buildArgs (mid + 1) (right a) (level a + 1))
                then par_sort cutoff created (buildArgs (mid + 1) (right a) (level a + 1))
                       (drop (nat (mid + 1 - left a)) xs)
                else drop (nat (mid + 1 - left a)) xs)))"
  by pat_completeness auto
termination
proof (relation "measure (\<lambda>(cutoff, created, a, xs). nat (right a - left a))")
  show "wf (measure (\<lambda>(cutoff, created, a, xs). nat (right a - left a)))"
    by simp
next
  fix cutoff :: int and created :: "argument \<Rightarrow> bool" and a :: argument
    and xs :: "int list" and mid :: int
  assume "\<not> right a \<le> left a" and "midpoint (left a) (right a) = Some mid"
  then have "left a \<le> mid \<and> mid < right a"
    by (auto simp: midpoint_def signed_divide_int_def sgn_if split: if_splits)
  then show "((cutoff, created, buildArgs (left a) mid (level a + 1),
               take (nat (mid + 1 - left a)) xs), cutoff, created, a, xs)
            \<in> measure (\<lambda>(cutoff, created, a, xs). nat (right a - left a))"
    by (simp add: buildArgs_def)
next
  fix cutoff :: int and created :: "argument \<Rightarrow> bool" and a :: argument
    and xs :: "int list" and mid :: int
  assume "\<not> right a \<le> left a" and "midpoint (left a) (right a) = Some mid"
  then have "left a \<le> mid \<and> mid < right a"
    by (auto simp: midpoint_def signed_divide_int_def sgn_if split: if_splits)
  then show "((cutoff, created, buildArgs (mid + 1) (right a) (level a + 1),
               drop (nat (mid + 1 - left a)) xs), cutoff, created, a, xs)
            \<in> measure (\<lambda>(cutoff, created, a, xs). nat (right a - left a))"
    by (simp add: buildArgs_def)
qed

declare par_sort.simps [simp del]

section \<open>The order of the writes of merge\<close>

lemma merge_sources_cases:
  obtains (left) "i \<le> leftend" and "j \<le> rightend \<longrightarrow> a ! nat i \<le> a ! nat j"
      and "merge_sources a leftend rightend i j = i # merge_sources a leftend rightend (i + 1) j"
  | (right) "j \<le> rightend" and "i \<le> leftend \<longrightarrow> \<not> a ! nat i \<le> a ! nat j"
      and "merge_sources a leftend rightend i j = j # merge_sources a leftend rightend i (j + 1)"
  | (neither) "\<not> i \<le> leftend" and "\<not> j \<le> rightend"
      and "merge_sources a leftend rightend i j = []"
proof (cases "i \<le> leftend \<and> (j \<le> rightend \<longrightarrow> a ! nat i \<le> a ! nat j)")
  case True
  then have "merge_sources a leftend rightend i j = i # merge_sources a leftend rightend (i + 1) j"
    by (subst merge_sources.simps) simp
  with True show ?thesis using left by blast
next
  case False
  show ?thesis
  proof (cases "j \<le> rightend")
    case True
    with False have "merge_sources a leftend rightend i j
                       = j # merge_sources a leftend rightend i (j + 1)"
      by (subst merge_sources.simps) auto
    with True False show ?thesis using right by blast
  next
    case nj: False
    with False have "merge_sources a leftend rightend i j = []"
      by (subst merge_sources.simps) auto
    with nj False show ?thesis using neither by blast
  qed
qed

lemma set_merge_sources:
  "set (merge_sources a leftend rightend i j) = {i..leftend} \<union> {j..rightend}"
proof (induction a leftend rightend i j rule: merge_sources.induct)
  case (1 a leftend rightend i j)
  show ?case
  proof (cases rule: merge_sources_cases [of i leftend j rightend a])
    case left
    have "set (merge_sources a leftend rightend (i + 1) j) = {i + 1..leftend} \<union> {j..rightend}"
      using left "1.IH"(1,3) by (cases "j \<le> rightend") simp_all
    moreover have "insert i {i + 1..leftend} = {i..leftend}" using left(1) by auto
    ultimately show ?thesis using left(3) by auto
  next
    case right
    have "set (merge_sources a leftend rightend i (j + 1)) = {i..leftend} \<union> {j + 1..rightend}"
      using right "1.IH"(2,4) by (cases "i \<le> leftend") simp_all
    moreover have "insert j {j + 1..rightend} = {j..rightend}" using right(1) by auto
    ultimately show ?thesis using right(3) by auto
  next
    case neither
    then show ?thesis by simp
  qed
qed

lemma filter_left_merge_sources:
  "leftend < j \<Longrightarrow>
   filter (\<lambda>x. x \<le> leftend) (merge_sources a leftend rightend i j) = [i..leftend]"
proof (induction a leftend rightend i j rule: merge_sources.induct)
  case (1 a leftend rightend i j)
  show ?case
  proof (cases rule: merge_sources_cases [of i leftend j rightend a])
    case left
    have "filter (\<lambda>x. x \<le> leftend) (merge_sources a leftend rightend (i + 1) j)
            = [i + 1..leftend]"
      using left "1.IH"(1,3) "1.prems" by (cases "j \<le> rightend") simp_all
    moreover have "[i..leftend] = i # [i + 1..leftend]" using left(1) by (rule upto_rec1)
    ultimately show ?thesis using left(1,3) by simp
  next
    case right
    have "filter (\<lambda>x. x \<le> leftend) (merge_sources a leftend rightend i (j + 1))
            = [i..leftend]"
      using right "1.IH"(2,4) "1.prems" by (cases "i \<le> leftend") simp_all
    then show ?thesis using right(3) "1.prems" by simp
  next
    case neither
    then show ?thesis by simp
  qed
qed

lemma filter_right_merge_sources:
  "leftend < j \<Longrightarrow>
   filter (\<lambda>x. leftend < x) (merge_sources a leftend rightend i j) = [j..rightend]"
proof (induction a leftend rightend i j rule: merge_sources.induct)
  case (1 a leftend rightend i j)
  show ?case
  proof (cases rule: merge_sources_cases [of i leftend j rightend a])
    case left
    have "filter (\<lambda>x. leftend < x) (merge_sources a leftend rightend (i + 1) j)
            = [j..rightend]"
      using left "1.IH"(1,3) "1.prems" by (cases "j \<le> rightend") simp_all
    then show ?thesis using left(1,3) by simp
  next
    case right
    have "filter (\<lambda>x. leftend < x) (merge_sources a leftend rightend i (j + 1))
            = [j + 1..rightend]"
      using right "1.IH"(2,4) "1.prems" by (cases "i \<le> leftend") simp_all
    moreover have "[j..rightend] = j # [j + 1..rightend]" using right(1) by (rule upto_rec1)
    ultimately show ?thesis using right(3) "1.prems" by simp
  next
    case neither
    then show ?thesis by simp
  qed
qed

lemma map_merge_sources:
  assumes "a = xa @ us @ xb @ vs @ xc"
    and "i = int (length xa)" and "leftend = int (length xa) + int (length us) - 1"
    and "j = int (length xa) + int (length us) + int (length xb)"
    and "rightend = int (length xa) + int (length us) + int (length xb) + int (length vs) - 1"
  shows "map (\<lambda>p. a ! nat p) (merge_sources a leftend rightend i j) = merged us vs"
  using assms
proof (induction us vs arbitrary: xa xb i j rule: merged.induct)
  case (1 vs)
  then show ?case
  proof (induction vs arbitrary: xb j)
    case Nil
    then show ?case by (subst merge_sources.simps) simp
  next
    case (Cons v vs)
    have "map (\<lambda>p. a ! nat p) (merge_sources a leftend rightend i (j + 1)) = merged [] vs"
      by (rule Cons.IH [where xb = "xb @ [v]"]) (use Cons.prems in simp_all)
    moreover have "a ! nat j = v" using Cons.prems by (simp add: nth_append nat_add_distrib)
    ultimately show ?case using Cons.prems by (subst merge_sources.simps) simp
  qed
next
  case (2 u us)
  then show ?case
  proof (induction us arbitrary: u xa i)
    case Nil
    have "merge_sources a leftend rightend (i + 1) j = []"
      using Nil.prems by (subst merge_sources.simps) simp
    moreover have "a ! nat i = u" using Nil.prems by simp
    ultimately show ?case using Nil.prems by (subst merge_sources.simps) simp
  next
    case (Cons u' us)
    have "map (\<lambda>p. a ! nat p) (merge_sources a leftend rightend (i + 1) j) = merged (u' # us) []"
      by (rule Cons.IH [where xa = "xa @ [u]"]) (use Cons.prems in simp_all)
    moreover have "a ! nat i = u" using Cons.prems by simp
    ultimately show ?case using Cons.prems by (subst merge_sources.simps) simp
  qed
next
  case (3 u us v vs)
  have nthi: "a ! nat i = u" and nthj: "a ! nat j = v"
    using "3.prems" by (simp_all add: nth_append nat_add_distrib)
  have cond: "i \<le> leftend \<and> j \<le> rightend" using "3.prems" by simp
  show ?case
  proof (cases "u \<le> v")
    case True
    have "map (\<lambda>p. a ! nat p) (merge_sources a leftend rightend (i + 1) j) = merged us (v # vs)"
      by (rule "3.IH"(1) [OF True, where xa = "xa @ [u]" and xb = xb])
         (use "3.prems" in simp_all)
    then show ?thesis using cond nthi nthj True by (subst merge_sources.simps) simp
  next
    case False
    have "map (\<lambda>p. a ! nat p) (merge_sources a leftend rightend i (j + 1)) = merged (u # us) vs"
      by (rule "3.IH"(2) [OF False, where xa = xa and xb = "xb @ [v]"])
         (use "3.prems" in simp_all)
    then show ?thesis using cond nthi nthj False by (subst merge_sources.simps) simp
  qed
qed

lemma merge_sources_stable:
  assumes "\<forall>x y. i \<le> x \<and> x \<le> y \<and> y \<le> leftend \<longrightarrow> a ! nat x \<le> a ! nat y"
    and "leftend < j"
    and "q < p" and "p < length (merge_sources a leftend rightend i j)"
    and "leftend < merge_sources a leftend rightend i j ! q"
    and "merge_sources a leftend rightend i j ! p \<le> leftend"
  shows "a ! nat (merge_sources a leftend rightend i j ! q)
           < a ! nat (merge_sources a leftend rightend i j ! p)"
  using assms
proof (induction a leftend rightend i j arbitrary: p q rule: merge_sources.induct)
  case (1 a leftend rightend i j)
  from "1.prems"(3) obtain p' where p: "p = Suc p'" by (cases p) auto
  show ?case
  proof (cases rule: merge_sources_cases [of i leftend j rightend a])
    case left
    let ?rest = "merge_sources a leftend rightend (i + 1) j"
    from left(1,3) "1.prems"(5) obtain q' where q: "q = Suc q'" by (cases q) auto
    have sorted': "\<forall>x y. i + 1 \<le> x \<and> x \<le> y \<and> y \<le> leftend \<longrightarrow> a ! nat x \<le> a ! nat y"
      using "1.prems"(1) by auto
    have "a ! nat (?rest ! q') < a ! nat (?rest ! p')"
    proof (cases "j \<le> rightend")
      case True
      with left show ?thesis
        using "1.IH"(1) [of q' p'] sorted' "1.prems"(2-6) p q by simp
    next
      case False
      with left show ?thesis
        using "1.IH"(3) [of q' p'] sorted' "1.prems"(2-6) p q by simp
    qed
    then show ?thesis using left(3) p q by simp
  next
    case right
    let ?rest = "merge_sources a leftend rightend i (j + 1)"
    have j1: "leftend < j + 1" using "1.prems"(2) by simp
    have IH: "a ! nat (?rest ! q') < a ! nat (?rest ! p')"
      if "q' < p'" "p' < length ?rest" "leftend < ?rest ! q'" "?rest ! p' \<le> leftend" for q'
    proof (cases "i \<le> leftend")
      case True
      with right show ?thesis
        using "1.IH"(2) [of q' p'] "1.prems"(1) j1 that by simp
    next
      case False
      with right show ?thesis
        using "1.IH"(4) [of q' p'] "1.prems"(1) j1 that by simp
    qed
    have plen: "p' < length ?rest" and ple: "?rest ! p' \<le> leftend"
      using "1.prems"(4,6) right(3) p by simp_all
    show ?thesis
    proof (cases q)
      case 0
      have "?rest ! p' \<in> set ?rest" using plen by simp
      then have mem: "i \<le> ?rest ! p'" "?rest ! p' \<le> leftend"
        using ple "1.prems"(2) by (auto simp: set_merge_sources)
      then have "i \<le> leftend" by simp
      with right(2) have "a ! nat j < a ! nat i" by simp
      also have "a ! nat i \<le> a ! nat (?rest ! p')"
        using "1.prems"(1) mem by simp
      finally show ?thesis using right(3) p 0 by simp
    next
      case (Suc q')
      then show ?thesis
        using IH [of q'] "1.prems"(3,5) plen ple right(3) p by simp
    qed
  next
    case neither
    then show ?thesis using "1.prems"(4) by simp
  qed
qed

lemma merge_sources_left_done:
  "leftend < i \<Longrightarrow> merge_sources a leftend rightend i j = [j..rightend]"
proof (induction "nat (rightend + 1 - j)" arbitrary: j)
  case 0
  then have "\<not> j \<le> rightend" by simp
  with 0 show ?case by (subst merge_sources.simps) simp
next
  case (Suc n)
  then have j: "j \<le> rightend" by simp
  have "merge_sources a leftend rightend i (j + 1) = [j + 1..rightend]"
    using Suc by (intro Suc.hyps(1)) simp_all
  with Suc.prems j show ?case
    by (subst merge_sources.simps) (simp add: upto_rec1)
qed

lemma merge_sources_right_done:
  "rightend < j \<Longrightarrow> merge_sources a leftend rightend i j = [i..leftend]"
proof (induction "nat (leftend + 1 - i)" arbitrary: i)
  case 0
  then have "\<not> i \<le> leftend" by simp
  with 0 show ?case by (subst merge_sources.simps) simp
next
  case (Suc n)
  then have i: "i \<le> leftend" by simp
  have "merge_sources a leftend rightend (i + 1) j = [i + 1..leftend]"
    using Suc by (intro Suc.hyps(1)) simp_all
  with Suc.prems i show ?case
    by (subst merge_sources.simps) (simp add: upto_rec1)
qed

section \<open>Lists of assignments\<close>

lemma length_moves_from: "length (moves_from k is) = length is"
  by (induction "is" arbitrary: k) simp_all

lemma map_snd_moves_from: "map snd (moves_from k is) = is"
  by (induction "is" arbitrary: k) simp_all

lemma map_fst_moves_from: "map fst (moves_from k is) = [k..k + int (length is) - 1]"
proof (induction "is" arbitrary: k)
  case Nil
  show ?case by simp
next
  case (Cons i "is")
  have "[k..k + int (length (i # is)) - 1] = k # [k + 1..k + 1 + int (length is) - 1]"
    by (subst upto_rec1) simp_all
  with Cons show ?case by simp
qed

lemma moves_from_append:
  "moves_from k (xs @ ys) = moves_from k xs @ moves_from (k + int (length xs)) ys"
  by (induction xs arbitrary: k) (simp_all add: algebra_simps)

lemma nth_moves_from: "p < length is \<Longrightarrow> moves_from k is ! p = (k + int p, is ! p)"
proof (induction "is" arbitrary: k p)
  case Nil
  then show ?case by simp
next
  case (Cons i "is")
  then show ?case by (cases p) simp_all
qed

lemma in_set_moves_from:
  "(k', i) \<in> set (moves_from k is) \<longleftrightarrow> (\<exists>p < length is. k' = k + int p \<and> i = is ! p)"
proof -
  have "(k', i) \<in> set (moves_from k is)
          \<longleftrightarrow> (\<exists>p < length (moves_from k is). moves_from k is ! p = (k', i))"
    by (simp add: in_set_conv_nth)
  also have "\<dots> \<longleftrightarrow> (\<exists>p < length is. k' = k + int p \<and> i = is ! p)"
    by (auto simp: length_moves_from nth_moves_from)
  finally show ?thesis .
qed

section \<open>The loops of merge\<close>

text \<open>
  The lemmas of this section describe the arrays by their parts: the part before the
  indices a loop still has to visit, the part it visits and the part after it.
\<close>

lemma merge_loop2_copies:
  assumes "A s = xa @ ys @ xc" and "B s = ba @ bm @ bc" and "length bm = length ys"
    and "i = int (length xa)" and "leftend = int (length xa) + int (length ys) - 1"
    and "k = int (length ba)"
  shows "merge_loop2 leftend i k mvs s
           = Some (leftend + 1, k + int (length ys), mvs @ moves_from k [i..leftend],
               s\<lparr>B := ba @ ys @ bc\<rparr>)"
  using assms
proof (induction ys arbitrary: xa ba bm i k mvs s)
  case Nil
  then show ?case
    by (subst merge_loop2.simps) simp
next
  case (Cons y ys)
  from Cons.prems obtain b bm' where bm: "bm = b # bm'" and len: "length bm' = length ys"
    by (cases bm) auto
  let ?s = "s\<lparr>B := (B s)[nat k := A s ! nat i]\<rparr>"
  have step: "merge_loop2 leftend i k mvs s
                = merge_loop2 leftend (i + 1) (k + 1) (mvs @ [(k, i)]) ?s"
    using Cons.prems bm by (subst merge_loop2.simps) (simp add: in_bounds_def)
  have nthA: "A s ! nat i = y" using Cons.prems by simp
  have updB: "(B s)[nat k := y] = (ba @ [y]) @ bm' @ bc" using Cons.prems bm by simp
  have upto: "[i..leftend] = i # [i + 1..leftend]"
    using Cons.prems by (intro upto_rec1) simp
  have "merge_loop2 leftend (i + 1) (k + 1) (mvs @ [(k, i)]) ?s
          = Some (leftend + 1, (k + 1) + int (length ys),
              (mvs @ [(k, i)]) @ moves_from (k + 1) [i + 1..leftend],
              ?s\<lparr>B := (ba @ [y]) @ ys @ bc\<rparr>)"
    by (rule Cons.IH [where xa = "xa @ [y]" and bm = bm'])
       (use Cons.prems len nthA updB in simp_all)
  then show ?case using step upto by simp
qed

lemma merge_loop3_copies:
  assumes "A s = xa @ ys @ xc" and "B s = ba @ bm @ bc" and "length bm = length ys"
    and "j = int (length xa)" and "rightend = int (length xa) + int (length ys) - 1"
    and "k = int (length ba)"
  shows "merge_loop3 rightend j k mvs s
           = Some (rightend + 1, k + int (length ys), mvs @ moves_from k [j..rightend],
               s\<lparr>B := ba @ ys @ bc\<rparr>)"
  using assms
proof (induction ys arbitrary: xa ba bm j k mvs s)
  case Nil
  then show ?case
    by (subst merge_loop3.simps) simp
next
  case (Cons y ys)
  from Cons.prems obtain b bm' where bm: "bm = b # bm'" and len: "length bm' = length ys"
    by (cases bm) auto
  let ?s = "s\<lparr>B := (B s)[nat k := A s ! nat j]\<rparr>"
  have step: "merge_loop3 rightend j k mvs s
                = merge_loop3 rightend (j + 1) (k + 1) (mvs @ [(k, j)]) ?s"
    using Cons.prems bm by (subst merge_loop3.simps) (simp add: in_bounds_def)
  have nthA: "A s ! nat j = y" using Cons.prems by simp
  have updB: "(B s)[nat k := y] = (ba @ [y]) @ bm' @ bc" using Cons.prems bm by simp
  have upto: "[j..rightend] = j # [j + 1..rightend]"
    using Cons.prems by (intro upto_rec1) simp
  have "merge_loop3 rightend (j + 1) (k + 1) (mvs @ [(k, j)]) ?s
          = Some (rightend + 1, (k + 1) + int (length ys),
              (mvs @ [(k, j)]) @ moves_from (k + 1) [j + 1..rightend],
              ?s\<lparr>B := (ba @ [y]) @ ys @ bc\<rparr>)"
    by (rule Cons.IH [where xa = "xa @ [y]" and bm = bm'])
       (use Cons.prems len nthA updB in simp_all)
  then show ?case using step upto by simp
qed

lemma merge_traced_via_loops:
  "merge_traced leftstart leftend rightstart rightend s =
     (case merge_loops leftend rightend leftstart rightstart leftstart [] s of
        None \<Rightarrow> None
      | Some (mvs, s3) \<Rightarrow>
          (case memcpy_A_B leftstart (rightend - leftstart + 1) s3 of
             None \<Rightarrow> None
           | Some s' \<Rightarrow> Some (mvs, s')))"
  by (simp add: merge_traced_def merge_loops_def split: option.splits prod.splits)

lemma merge_via_loops:
  "merge leftstart leftend rightstart rightend s =
     (case merge_loops leftend rightend leftstart rightstart leftstart [] s of
        None \<Rightarrow> None
      | Some (mvs, s3) \<Rightarrow> memcpy_A_B leftstart (rightend - leftstart + 1) s3)"
  by (simp add: merge_def merge_traced_via_loops split: option.splits prod.splits)

lemma merge_loops_merged:
  assumes "A s = xa @ us @ xb @ vs @ xc" and "B s = ba @ bm @ bc"
    and "length bm = length us + length vs"
    and "i = int (length xa)" and "leftend = int (length xa) + int (length us) - 1"
    and "j = int (length xa) + int (length us) + int (length xb)"
    and "rightend = int (length xa) + int (length us) + int (length xb) + int (length vs) - 1"
    and "k = int (length ba)"
  shows "merge_loops leftend rightend i j k mvs s
           = Some (mvs @ moves_from k (merge_sources (A s) leftend rightend i j),
               s\<lparr>B := ba @ merged us vs @ bc\<rparr>)"
  using assms
proof (induction us vs arbitrary: xa xb ba bm i j k mvs s rule: merged.induct)
  case (1 vs)
  have l1: "merge_loop1 leftend rightend i j k mvs s = Some (i, j, k, mvs, s)"
    using "1.prems" by (subst merge_loop1.simps) simp
  have l2: "merge_loop2 leftend i k mvs s = Some (i, k, mvs, s)"
    using "1.prems" by (subst merge_loop2.simps) simp
  have l3: "merge_loop3 rightend j k mvs s
              = Some (rightend + 1, k + int (length vs), mvs @ moves_from k [j..rightend],
                  s\<lparr>B := ba @ vs @ bc\<rparr>)"
    by (rule merge_loop3_copies [where xa = "xa @ xb" and xc = xc and bm = bm])
       (use "1.prems" in simp_all)
  have src: "merge_sources (A s) leftend rightend i j = [j..rightend]"
    using "1.prems" by (intro merge_sources_left_done) simp
  show ?case by (simp add: merge_loops_def l1 l2 l3 src)
next
  case (2 u us)
  have l1: "merge_loop1 leftend rightend i j k mvs s = Some (i, j, k, mvs, s)"
    using "2.prems" by (subst merge_loop1.simps) simp
  have l2: "merge_loop2 leftend i k mvs s
              = Some (leftend + 1, k + int (length (u # us)), mvs @ moves_from k [i..leftend],
                  s\<lparr>B := ba @ (u # us) @ bc\<rparr>)"
    by (rule merge_loop2_copies [where xa = xa and xc = "xb @ xc" and bm = bm])
       (use "2.prems" in simp_all)
  have l3: "merge_loop3 rightend j k' mvs' s' = Some (j, k', mvs', s')" for k' mvs' s'
    using "2.prems" by (subst merge_loop3.simps) simp
  have src: "merge_sources (A s) leftend rightend i j = [i..leftend]"
    using "2.prems" by (intro merge_sources_right_done) simp
  show ?case by (simp add: merge_loops_def l1 l2 l3 src)
next
  case (3 u us v vs)
  from "3.prems" obtain b bm' where bm: "bm = b # bm'"
    and len: "length bm' = length us + length vs + 1"
    by (cases bm) auto
  have nthi: "A s ! nat i = u" and nthj: "A s ! nat j = v"
    using "3.prems" by (simp_all add: nth_append nat_add_distrib)
  have inb: "in_bounds (A s) i" "in_bounds (A s) j" "in_bounds (B s) k"
    using "3.prems" bm by (simp_all add: in_bounds_def)
  have cond: "i \<le> leftend \<and> j \<le> rightend" using "3.prems" by simp
  show ?case
  proof (cases "u \<le> v")
    case True
    let ?s = "s\<lparr>B := (B s)[nat k := u]\<rparr>"
    have step: "merge_loop1 leftend rightend i j k mvs s
                  = merge_loop1 leftend rightend (i + 1) j (k + 1) (mvs @ [(k, i)]) ?s"
      using cond inb nthi nthj True by (subst merge_loop1.simps) simp
    have src: "merge_sources (A s) leftend rightend i j
                 = i # merge_sources (A s) leftend rightend (i + 1) j"
      using cond nthi nthj True by (subst merge_sources.simps) simp
    have updB: "B ?s = (ba @ [u]) @ bm' @ bc" using "3.prems" bm by simp
    have "merge_loops leftend rightend (i + 1) j (k + 1) (mvs @ [(k, i)]) ?s
            = Some ((mvs @ [(k, i)])
                      @ moves_from (k + 1) (merge_sources (A ?s) leftend rightend (i + 1) j),
                ?s\<lparr>B := (ba @ [u]) @ merged us (v # vs) @ bc\<rparr>)"
      by (rule "3.IH"(1) [OF True, where xa = "xa @ [u]" and xb = xb and bm = bm'])
         (use "3.prems" len updB in simp_all)
    then show ?thesis using step src True by (simp add: merge_loops_def)
  next
    case False
    let ?s = "s\<lparr>B := (B s)[nat k := v]\<rparr>"
    have step: "merge_loop1 leftend rightend i j k mvs s
                  = merge_loop1 leftend rightend i (j + 1) (k + 1) (mvs @ [(k, j)]) ?s"
      using cond inb nthi nthj False by (subst merge_loop1.simps) simp
    have src: "merge_sources (A s) leftend rightend i j
                 = j # merge_sources (A s) leftend rightend i (j + 1)"
      using cond nthi nthj False by (subst merge_sources.simps) simp
    have updB: "B ?s = (ba @ [v]) @ bm' @ bc" using "3.prems" bm by simp
    have "merge_loops leftend rightend i (j + 1) (k + 1) (mvs @ [(k, j)]) ?s
            = Some ((mvs @ [(k, j)])
                      @ moves_from (k + 1) (merge_sources (A ?s) leftend rightend i (j + 1)),
                ?s\<lparr>B := (ba @ [v]) @ merged (u # us) vs @ bc\<rparr>)"
      by (rule "3.IH"(2) [OF False, where xa = xa and xb = "xb @ [v]" and bm = bm'])
         (use "3.prems" len updB in simp_all)
    then show ?thesis using step src False by (simp add: merge_loops_def)
  qed
qed

lemma length_merged: "length (merged us vs) = length us + length vs"
  by (induction us vs rule: merged.induct) simp_all

lemma mset_merged: "mset (merged us vs) = mset us + mset vs"
  by (induction us vs rule: merged.induct) simp_all

lemma set_merged: "set (merged us vs) = set us \<union> set vs"
  by (induction us vs rule: merged.induct) auto

lemma sorted_merged: "sorted us \<Longrightarrow> sorted vs \<Longrightarrow> sorted (merged us vs)"
  by (induction us vs rule: merged.induct) (auto simp: set_merged)

lemma merged_sort: "sorted us \<Longrightarrow> sorted vs \<Longrightarrow> merged us vs = sort (us @ vs)"
  by (rule properties_for_sort [symmetric]) (simp_all add: mset_merged sorted_merged)

lemma merge_traced_decomp:
  assumes "A s = pre @ us @ vs @ post" and "B s = bpre @ bm @ bpost"
    and "length bpre = length pre" and "length bm = length us + length vs"
    and "leftstart = int (length pre)"
    and "leftend = int (length pre) + int (length us) - 1"
    and "rightstart = leftend + 1"
    and "rightend = int (length pre) + int (length us) + int (length vs) - 1"
  shows "merge_traced leftstart leftend rightstart rightend s
           = Some (moves_from leftstart (merge_sources (A s) leftend rightend leftstart rightstart),
               s\<lparr>A := pre @ merged us vs @ post, B := bpre @ merged us vs @ bpost\<rparr>)"
proof -
  let ?M = "merged us vs"
  let ?s3 = "s\<lparr>B := bpre @ ?M @ bpost\<rparr>"
  have loops: "merge_loops leftend rightend leftstart rightstart leftstart [] s
                 = Some ([] @ moves_from leftstart
                                (merge_sources (A s) leftend rightend leftstart rightstart), ?s3)"
    by (rule merge_loops_merged [where xa = pre and xb = "[]" and xc = post and bm = bm])
       (use assms in simp_all)
  have n: "rightend - leftstart + 1 = int (length ?M)"
    using assms by (simp add: length_merged)
  have "memcpy_A_B leftstart (int (length ?M)) ?s3 = Some (?s3\<lparr>A := pre @ ?M @ post\<rparr>)"
    using assms by (simp add: memcpy_A_B_def length_merged)
  then show ?thesis
    by (simp add: merge_traced_via_loops loops n)
qed

lemma merge_decomp:
  assumes "A s = pre @ us @ vs @ post" and "B s = bpre @ bm @ bpost"
    and "length bpre = length pre" and "length bm = length us + length vs"
    and "leftstart = int (length pre)"
    and "leftend = int (length pre) + int (length us) - 1"
    and "rightstart = leftend + 1"
    and "rightend = int (length pre) + int (length us) + int (length vs) - 1"
  shows "merge leftstart leftend rightstart rightend s
           = Some (s\<lparr>A := pre @ merged us vs @ post, B := bpre @ merged us vs @ bpost\<rparr>)"
  unfolding merge_def by (simp add: merge_traced_decomp [OF assms])

section \<open>The serial sort\<close>

lemma sdiv_2_nonneg: "0 \<le> x \<Longrightarrow> x sdiv 2 = x div (2::int)"
  by (simp add: signed_divide_int_def sgn_if)

lemma midpoint_bounds:
  assumes "midpoint l r = Some mid" and "l < r"
  shows "mid = l + (r - l) div 2" and "l \<le> mid" and "mid < r"
  using assms by (auto simp: midpoint_def sdiv_2_nonneg split: if_splits)

lemma c_int_diff:
  assumes "c_int l" and "c_int r" and "0 \<le> l" and "l < r"
  shows "c_int (r - l)"
  using assms unfolding c_int_def by simp

lemma midpoint_inside:
  assumes "0 \<le> l" and "l < r"
  shows "midpoint l r = Some (l + (r - l) sdiv 2)"
  using assms unfolding midpoint_def c_int_def by auto

lemma sort_short: "length xs \<le> 1 \<Longrightarrow> sort xs = (xs :: int list)"
  by (cases xs) (simp_all)

lemma my_mergesort_decomp:
  assumes "A s = pre @ xs @ post" and "B s = bpre @ bm @ bpost"
    and "length bpre = length pre" and "length bm = length xs"
    and "l = int (length pre)" and "r = int (length pre) + int (length xs) - 1"
  shows "my_mergesort l r s
           = Some (s\<lparr>A := pre @ sort xs @ post,
                      B := bpre @ (if length xs \<le> 1 then bm else sort xs) @ bpost\<rparr>)"
  using assms
proof (induction l r s arbitrary: pre xs post bpre bm bpost rule: my_mergesort.induct)
  case (1 l r s)
  show ?case
  proof (cases "length xs \<le> 1")
    case True
    then have "l \<ge> r" using "1.prems" by simp
    then have "my_mergesort l r s = Some s" by (subst my_mergesort.simps) simp
    then show ?thesis using True "1.prems" by (simp add: sort_short)
  next
    case False
    define n where "n = length xs"
    define h where "h = (n - 1) div 2 + 1"
    define mid where "mid = l + (r - l) sdiv 2"
    have n2: "2 \<le> n" using False by (simp add: n_def)
    have lr: "\<not> l \<ge> r" using "1.prems" False by simp
    have hn: "h < n" "0 < h" using n2 by (auto simp: h_def)
    have "r - l = int (n - 1)" using "1.prems" n2 by (simp add: n_def of_nat_diff)
    then have "mid = l + int ((n - 1) div 2)"
      by (simp add: mid_def sdiv_2_nonneg zdiv_int)
    then have mid: "mid = int (length pre) + int h - 1"
      using "1.prems" by (simp add: h_def)
    define us where "us = take h xs"
    define vs where "vs = drop h xs"
    define b1 where "b1 = take h bm"
    define b2 where "b2 = drop h bm"
    have xs: "xs = us @ vs" and bm: "bm = b1 @ b2"
      by (simp_all add: us_def vs_def b1_def b2_def)
    have lens: "length us = h" "length vs = n - h" "length b1 = h" "length b2 = n - h"
      using hn "1.prems" by (simp_all add: us_def vs_def b1_def b2_def n_def)
    define c1 where "c1 = (if length us \<le> 1 then b1 else sort us)"
    define c2 where "c2 = (if length vs \<le> 1 then b2 else sort vs)"
    have lenc: "length c1 = h" "length c2 = n - h"
      by (simp_all add: c1_def c2_def lens)
    let ?s1 = "s\<lparr>A := pre @ sort us @ vs @ post, B := bpre @ c1 @ b2 @ bpost\<rparr>"
    have mp: "midpoint l r = Some mid"
      unfolding mid_def using "1.prems" lr by (intro midpoint_inside) simp_all
    have left: "my_mergesort l mid s = Some ?s1"
      unfolding c1_def
      by (rule "1.IH"(1) [OF lr mp, where post = "vs @ post" and bm = b1])
         (use "1.prems" xs bm lens mid in simp_all)
    let ?s2 = "s\<lparr>A := pre @ sort us @ sort vs @ post, B := bpre @ c1 @ c2 @ bpost\<rparr>"
    have "my_mergesort (mid + 1) r ?s1
            = Some (?s1\<lparr>A := (pre @ sort us) @ sort vs @ post,
                        B := (bpre @ c1) @ (if length vs \<le> 1 then b2 else sort vs) @ bpost\<rparr>)"
      by (rule "1.IH"(2) [OF lr mp left, where bm = b2])
         (use "1.prems" xs bm lens lenc mid hn in simp_all)
    then have right: "my_mergesort (mid + 1) r ?s1 = Some ?s2"
      by (simp add: c2_def)
    have "merge l mid (mid + 1) r ?s2
            = Some (?s2\<lparr>A := pre @ merged (sort us) (sort vs) @ post,
                        B := bpre @ merged (sort us) (sort vs) @ bpost\<rparr>)"
      by (rule merge_decomp [where bm = "c1 @ c2"])
         (use "1.prems" xs lens lenc mid hn in simp_all)
    moreover have "merged (sort us) (sort vs) = sort xs"
      by (simp add: merged_sort xs properties_for_sort)
    ultimately have mrg: "merge l mid (mid + 1) r ?s2
            = Some (s\<lparr>A := pre @ sort xs @ post, B := bpre @ sort xs @ bpost\<rparr>)"
      by simp
    have "my_mergesort l r s = merge l mid (mid + 1) r ?s2"
      using lr left right mp by (subst my_mergesort.simps) simp
    then show ?thesis using mrg False by simp
  qed
qed

section \<open>The parallel sort\<close>

lemma par_sort_trivial: "right a \<le> left a \<Longrightarrow> par_sort cutoff created a xs = xs"
  by (subst par_sort.simps) simp

lemma par_sort_serial:
  "\<not> right a \<le> left a \<Longrightarrow> cutoff \<le> level a \<Longrightarrow> par_sort cutoff created a xs = sort xs"
  by (subst par_sort.simps) simp

lemma par_sort_fan_out:
  assumes "\<not> right a \<le> left a" and "\<not> cutoff \<le> level a"
    and "midpoint (left a) (right a) = Some mid"
  shows "par_sort cutoff created a xs
           = merged
               (if created (buildArgs (left a) mid (level a + 1))
                then par_sort cutoff created (buildArgs (left a) mid (level a + 1))
                       (take (nat (mid + 1 - left a)) xs)
                else take (nat (mid + 1 - left a)) xs)
               (if created (buildArgs (mid + 1) (right a) (level a + 1))
                then par_sort cutoff created (buildArgs (mid + 1) (right a) (level a + 1))
                       (drop (nat (mid + 1 - left a)) xs)
                else drop (nat (mid + 1 - left a)) xs)"
  using assms by (subst par_sort.simps) simp

lemma mset_par_sort: "mset (par_sort cutoff created a xs) = mset xs"
proof (induction cutoff created a xs rule: par_sort.induct)
  case (1 cutoff created a xs)
  show ?case
  proof (cases "right a \<le> left a")
    case True
    then show ?thesis by (simp add: par_sort_trivial)
  next
    case False
    show ?thesis
    proof (cases "cutoff \<le> level a")
      case True
      with False show ?thesis by (simp add: par_sort_serial)
    next
      case deeper: False
      show ?thesis
      proof (cases "midpoint (left a) (right a)")
        case None
        with False deeper show ?thesis by (subst par_sort.simps) simp
      next
        case (Some mid)
        let ?h = "nat (mid + 1 - left a)"
        let ?la = "buildArgs (left a) mid (level a + 1)"
        let ?ra = "buildArgs (mid + 1) (right a) (level a + 1)"
        have l: "mset (if created ?la then par_sort cutoff created ?la (take ?h xs)
                       else take ?h xs) = mset (take ?h xs)"
          using "1.IH"(1) [OF False deeper Some] by simp
        have r: "mset (if created ?ra then par_sort cutoff created ?ra (drop ?h xs)
                       else drop ?h xs) = mset (drop ?h xs)"
          using "1.IH"(2) [OF False deeper Some] by simp
        have "mset (take ?h xs) + mset (drop ?h xs) = mset xs"
          by (metis append_take_drop_id mset_append)
        then show ?thesis
          unfolding par_sort_fan_out [OF False deeper Some] mset_merged l r .
      qed
    qed
  qed
qed

lemma length_par_sort: "length (par_sort cutoff created a xs) = length xs"
  using mset_par_sort [of cutoff created a xs] by (metis size_mset)

lemma par_sort_sorted: "sorted xs \<Longrightarrow> par_sort cutoff created a xs = xs"
proof (induction cutoff created a xs rule: par_sort.induct)
  case (1 cutoff created a xs)
  show ?case
  proof (cases "right a \<le> left a")
    case True
    then show ?thesis by (simp add: par_sort_trivial)
  next
    case False
    show ?thesis
    proof (cases "cutoff \<le> level a")
      case True
      with False "1.prems" show ?thesis by (simp add: par_sort_serial sorted_sort_id)
    next
      case deeper: False
      show ?thesis
      proof (cases "midpoint (left a) (right a)")
        case None
        with False deeper show ?thesis by (subst par_sort.simps) simp
      next
        case (Some mid)
        let ?h = "nat (mid + 1 - left a)"
        let ?la = "buildArgs (left a) mid (level a + 1)"
        let ?ra = "buildArgs (mid + 1) (right a) (level a + 1)"
        have st: "sorted (take ?h xs)" and sd: "sorted (drop ?h xs)"
          using "1.prems" by (simp_all add: sorted_wrt_take sorted_wrt_drop)
        have l: "(if created ?la then par_sort cutoff created ?la (take ?h xs)
                  else take ?h xs) = take ?h xs"
          using "1.IH"(1) [OF False deeper Some _ st] by simp
        have r: "(if created ?ra then par_sort cutoff created ?ra (drop ?h xs)
                  else drop ?h xs) = drop ?h xs"
          using "1.IH"(2) [OF False deeper Some _ sd] by simp
        have "merged (take ?h xs) (drop ?h xs) = sort (take ?h xs @ drop ?h xs)"
          using st sd by (rule merged_sort)
        also have "\<dots> = xs" using "1.prems" by (simp add: sorted_sort_id)
        finally show ?thesis
          unfolding par_sort_fan_out [OF False deeper Some] l r .
      qed
    qed
  qed
qed

lemma par_sort_created:
  assumes "\<forall>b. created b" and "0 \<le> left a" and "length xs = nat (right a + 1 - left a)"
  shows "par_sort cutoff created a xs = sort xs"
  using assms
proof (induction cutoff created a xs rule: par_sort.induct)
  case (1 cutoff created a xs)
  show ?case
  proof (cases "right a \<le> left a")
    case True
    then have "length xs \<le> 1" using "1.prems" by simp
    with True show ?thesis by (simp add: par_sort_trivial sort_short)
  next
    case False
    show ?thesis
    proof (cases "cutoff \<le> level a")
      case True
      with False show ?thesis by (simp add: par_sort_serial)
    next
      case deeper: False
      define mid where "mid = left a + (right a - left a) sdiv 2"
      have mp: "midpoint (left a) (right a) = Some mid"
        unfolding mid_def using "1.prems" False by (intro midpoint_inside) simp_all
      note m = midpoint_bounds [OF mp]
      let ?h = "nat (mid + 1 - left a)"
      let ?la = "buildArgs (left a) mid (level a + 1)"
      let ?ra = "buildArgs (mid + 1) (right a) (level a + 1)"
      have cl: "created ?la" and cr: "created ?ra" using "1.prems"(1) by simp_all
      have "par_sort cutoff created ?la (take ?h xs) = sort (take ?h xs)"
        by (rule "1.IH"(1) [OF False deeper mp cl "1.prems"(1)])
           (use "1.prems" m False in \<open>simp_all add: buildArgs_def\<close>)
      moreover have "par_sort cutoff created ?ra (drop ?h xs) = sort (drop ?h xs)"
        by (rule "1.IH"(2) [OF False deeper mp cr "1.prems"(1)])
           (use "1.prems" m False in \<open>simp_all add: buildArgs_def\<close>)
      moreover have "merged (sort (take ?h xs)) (sort (drop ?h xs))
                       = sort (sort (take ?h xs) @ sort (drop ?h xs))"
        by (rule merged_sort) simp_all
      moreover have "mset (sort (take ?h xs) @ sort (drop ?h xs)) = mset xs"
        by (simp add: union_code)
      then have "sort (sort (take ?h xs) @ sort (drop ?h xs)) = sort xs"
        by (metis properties_for_sort sorted_sort mset_sort)
      ultimately show ?thesis
        unfolding par_sort_fan_out [OF False deeper mp] using cl cr by simp
    qed
  qed
qed

lemma parallel_mergesort_fan_out:
  assumes "left a < right a" and "level a < cutoff"
    and "midpoint (left a) (right a) = Some mid"
  shows "parallel_mergesort cutoff created a s
           = (case (if created (buildArgs (left a) mid (level a + 1))
                    then parallel_mergesort cutoff created
                           (buildArgs (left a) mid (level a + 1)) s
                    else Some s) of
                None \<Rightarrow> None
              | Some s1 \<Rightarrow>
                  (case (if created (buildArgs (mid + 1) (right a) (level a + 1))
                         then parallel_mergesort cutoff created
                                (buildArgs (mid + 1) (right a) (level a + 1)) s1
                         else Some s1) of
                     None \<Rightarrow> None
                   | Some s2 \<Rightarrow> merge (left a) mid (mid + 1) (right a) s2))"
  using assms by (subst parallel_mergesort.simps) (simp add: Let_def)

lemma parallel_mergesort_overflow:
  assumes "left a < right a" and "level a < cutoff"
    and "midpoint (left a) (right a) = None"
  shows "parallel_mergesort cutoff created a s = None"
  using assms by (subst parallel_mergesort.simps) (simp add: Let_def)

lemma parallel_mergesort_decomp:
  assumes "A s = pre @ xs @ post" and "B s = bpre @ bm @ bpost"
    and "length bpre = length pre" and "length bm = length xs"
    and "left a = int (length pre)" and "right a = int (length pre) + int (length xs) - 1"
  shows "parallel_mergesort cutoff created a s
           = Some (s\<lparr>A := pre @ par_sort cutoff created a xs @ post,
                      B := bpre @ (if length xs \<le> 1 then bm
                                   else par_sort cutoff created a xs) @ bpost\<rparr>)"
  using assms
proof (induction cutoff created a s arbitrary: pre xs post bpre bm bpost
         rule: parallel_mergesort.induct)
  case (1 cutoff created a s)
  define l where "l = left a"
  define r where "r = right a"
  show ?case
  proof (cases "length xs \<le> 1")
    case True
    then have triv: "r \<le> l" using "1.prems" by (simp add: l_def r_def)
    then have "parallel_mergesort cutoff created a s = Some s"
      by (subst parallel_mergesort.simps) (simp add: l_def r_def)
    then show ?thesis using True triv "1.prems" by (simp add: par_sort_trivial l_def r_def)
  next
    case False
    have lr: "\<not> r \<le> l" using "1.prems" False by (simp add: l_def r_def)
    show ?thesis
    proof (cases "cutoff \<le> level a")
      case True
      then have "parallel_mergesort cutoff created a s = my_mergesort l r s"
        using lr by (subst parallel_mergesort.simps) (simp add: l_def r_def)
      moreover have "my_mergesort l r s
           = Some (s\<lparr>A := pre @ sort xs @ post,
                      B := bpre @ (if length xs \<le> 1 then bm else sort xs) @ bpost\<rparr>)"
        by (rule my_mergesort_decomp) (use "1.prems" in \<open>simp_all add: l_def r_def\<close>)
      moreover have "par_sort cutoff created a xs = sort xs"
        using lr True by (simp add: par_sort_serial l_def r_def)
      ultimately show ?thesis by simp
    next
      case deeper: False
      define n where "n = length xs"
      define h where "h = (n - 1) div 2 + 1"
      define mid where "mid = l + (r - l) sdiv 2"
      define leftArg where "leftArg = buildArgs l mid (level a + 1)"
      define rightArg where "rightArg = buildArgs (mid + 1) r (level a + 1)"
      have n2: "2 \<le> n" using False by (simp add: n_def)
      have hn: "h < n" "0 < h" using n2 by (auto simp: h_def)
      have mp: "midpoint l r = Some mid"
        unfolding mid_def using "1.prems" lr by (intro midpoint_inside) (simp_all add: l_def)
      have "r - l = int (n - 1)" using "1.prems" n2 by (simp add: n_def of_nat_diff l_def r_def)
      then have "mid = l + int ((n - 1) div 2)"
        by (simp add: mid_def sdiv_2_nonneg zdiv_int)
      then have mid: "mid = int (length pre) + int h - 1"
        using "1.prems" by (simp add: h_def l_def)
      have hh: "nat (mid + 1 - left a) = h"
        using mid "1.prems" by simp
      define us where "us = take h xs"
      define vs where "vs = drop h xs"
      define b1 where "b1 = take h bm"
      define b2 where "b2 = drop h bm"
      have xs: "xs = us @ vs" and bm: "bm = b1 @ b2"
        by (simp_all add: us_def vs_def b1_def b2_def)
      have lens: "length us = h" "length vs = n - h" "length b1 = h" "length b2 = n - h"
        using hn "1.prems" by (simp_all add: us_def vs_def b1_def b2_def n_def)
      define us' where "us' = (if created leftArg then par_sort cutoff created leftArg us else us)"
      define vs' where "vs' = (if created rightArg then par_sort cutoff created rightArg vs else vs)"
      define c1 where "c1 = (if created leftArg \<and> \<not> length us \<le> 1 then us' else b1)"
      define c2 where "c2 = (if created rightArg \<and> \<not> length vs \<le> 1 then vs' else b2)"
      have lens': "length us' = h" "length vs' = n - h" "length c1 = h" "length c2 = n - h"
        by (simp_all add: us'_def vs'_def c1_def c2_def lens length_par_sort)
      define s1 where "s1 = s\<lparr>A := pre @ us' @ vs @ post, B := bpre @ c1 @ b2 @ bpost\<rparr>"
      define s2 where "s2 = s\<lparr>A := pre @ us' @ vs' @ post, B := bpre @ c1 @ c2 @ bpost\<rparr>"
      have left: "(if created leftArg then parallel_mergesort cutoff created leftArg s else Some s)
                    = Some s1"
      proof (cases "created leftArg")
        case True
        have "parallel_mergesort cutoff created leftArg s
                = Some (s\<lparr>A := pre @ par_sort cutoff created leftArg us @ (vs @ post),
                           B := bpre @ (if length us \<le> 1 then b1
                                        else par_sort cutoff created leftArg us) @ (b2 @ bpost)\<rparr>)"
          by (rule "1.IH"(1) [OF l_def r_def refl lr deeper mp leftArg_def rightArg_def True])
             (use "1.prems" xs bm lens mid in \<open>simp_all add: leftArg_def buildArgs_def l_def\<close>)
        with True show ?thesis by (simp add: s1_def us'_def c1_def)
      next
        case False
        have "s1 = s\<lparr>A := A s, B := B s\<rparr>"
          unfolding s1_def using False "1.prems" xs bm by (simp add: us'_def c1_def)
        with False show ?thesis by simp
      qed
      have right: "(if created rightArg then parallel_mergesort cutoff created rightArg s1
                    else Some s1) = Some s2"
      proof (cases "created rightArg")
        case True
        have "parallel_mergesort cutoff created rightArg s1
                = Some (s1\<lparr>A := (pre @ us') @ par_sort cutoff created rightArg vs @ post,
                            B := (bpre @ c1) @ (if length vs \<le> 1 then b2
                                        else par_sort cutoff created rightArg vs) @ bpost\<rparr>)"
          by (rule "1.IH"(2) [OF l_def r_def refl lr deeper mp leftArg_def rightArg_def left True])
             (use "1.prems" lens lens' mid hn in
                \<open>simp_all add: s1_def rightArg_def buildArgs_def r_def n_def\<close>)
        with True show ?thesis by (simp add: s1_def s2_def vs'_def c2_def)
      next
        case False
        then show ?thesis by (simp add: s1_def s2_def vs'_def c2_def)
      qed
      have "merge l mid (mid + 1) r s2
              = Some (s2\<lparr>A := pre @ merged us' vs' @ post,
                          B := bpre @ merged us' vs' @ bpost\<rparr>)"
        by (rule merge_decomp [where bm = "c1 @ c2"])
           (use "1.prems" lens' mid hn in \<open>simp_all add: s2_def l_def r_def n_def\<close>)
      then have mrg: "merge l mid (mid + 1) r s2
              = Some (s\<lparr>A := pre @ merged us' vs' @ post, B := bpre @ merged us' vs' @ bpost\<rparr>)"
        by (simp add: s2_def)
      have ps: "par_sort cutoff created a xs = merged us' vs'"
        using par_sort_fan_out [of a cutoff mid created xs] lr deeper mp hh
        by (simp add: l_def r_def us'_def vs'_def us_def vs_def leftArg_def rightArg_def)
      have "parallel_mergesort cutoff created a s = merge l mid (mid + 1) r s2"
        using lr deeper left right mp
        by (subst parallel_mergesort.simps)
           (simp add: Let_def l_def [symmetric] r_def [symmetric]
              leftArg_def [symmetric] rightArg_def [symmetric])
      then show ?thesis using mrg False ps by simp
    qed
  qed
qed

section \<open>The functions on index ranges\<close>

lemma length_slice:
  "0 \<le> l \<Longrightarrow> l \<le> r + 1 \<Longrightarrow> r < int (length xs) \<Longrightarrow> length (slice xs l r) = nat (r + 1 - l)"
  by (simp add: slice_def)

lemma slice_decomp:
  assumes "0 \<le> l" and "l \<le> r + 1" and "r < int (length xs)"
  shows "xs = take (nat l) xs @ slice xs l r @ drop (nat (r + 1)) xs"
proof -
  have "nat (r + 1 - l) + nat l = nat (r + 1)" using assms by linarith
  then have "drop (nat (r + 1 - l)) (drop (nat l) xs) = drop (nat (r + 1)) xs"
    by simp
  then have "drop (nat l) xs = slice xs l r @ drop (nat (r + 1)) xs"
    unfolding slice_def by (metis append_take_drop_id)
  then show ?thesis by (metis append_take_drop_id)
qed

lemma slice_parts:
  "length pre = nat l \<Longrightarrow> length ys = nat (r + 1 - l) \<Longrightarrow> slice (pre @ ys @ post) l r = ys"
  by (simp add: slice_def)

lemma slice_append:
  assumes "0 \<le> l" and "l \<le> m + 1" and "m \<le> r"
  shows "slice xs l r = slice xs l m @ slice xs (m + 1) r"
proof -
  have "nat (r + 1 - l) = nat (m + 1 - l) + nat (r + 1 - (m + 1))" using assms by linarith
  moreover have "nat (m + 1) = nat (m + 1 - l) + nat l" using assms by linarith
  ultimately show ?thesis
    by (simp add: slice_def take_add)
qed

lemma nth_slice:
  assumes "0 \<le> l" and "l \<le> x" and "x \<le> r" and "r < int (length xs)"
  shows "slice xs l r ! nat (x - l) = xs ! nat x"
proof -
  have "nat (x - l) < nat (r + 1 - l)" using assms by linarith
  moreover have "nat l + nat (x - l) = nat x" using assms by linarith
  moreover have "nat l + nat (x - l) \<le> length xs" using assms by linarith
  ultimately show ?thesis by (simp add: slice_def)
qed

lemma nth_outside_block:
  assumes "length ys = length xs"
    and "take (nat l) ys = take (nat l) xs"
    and "drop (nat (r + 1)) ys = drop (nat (r + 1)) xs"
    and "n < length xs" and "int n < l \<or> r < int n"
  shows "ys ! n = xs ! n"
proof (cases "int n < l")
  case True
  then have "n < nat l" by linarith
  then have "ys ! n = take (nat l) ys ! n" "xs ! n = take (nat l) xs ! n" by simp_all
  with assms(2) show ?thesis by simp
next
  case False
  with assms(5) have "nat (r + 1) \<le> n" by linarith
  then obtain d where n: "n = nat (r + 1) + d" using le_Suc_ex by blast
  have "ys ! n = drop (nat (r + 1)) ys ! d" "xs ! n = drop (nat (r + 1)) xs ! d"
    using assms(1,4) n by simp_all
  with assms(3) show ?thesis by simp
qed

lemma merge_range:
  assumes "merge_ranges_ok leftstart leftend rightstart rightend s"
  shows "merge leftstart leftend rightstart rightend s
           = Some (s\<lparr>A := take (nat leftstart) (A s)
                            @ merged (slice (A s) leftstart leftend) (slice (A s) rightstart rightend)
                            @ drop (nat (rightend + 1)) (A s),
                      B := take (nat leftstart) (B s)
                            @ merged (slice (A s) leftstart leftend) (slice (A s) rightstart rightend)
                            @ drop (nat (rightend + 1)) (B s)\<rparr>)"
proof -
  from assms have ok: "0 \<le> leftstart" "leftstart \<le> leftend + 1" "rightstart = leftend + 1"
    "leftend \<le> rightend" "rightend < int (length (A s))" "rightend < int (length (B s))"
    by (simp_all add: merge_ranges_ok_def)
  have wide: "leftstart \<le> rightend + 1" using ok by simp
  have "A s = take (nat leftstart) (A s) @ slice (A s) leftstart rightend
                @ drop (nat (rightend + 1)) (A s)"
    by (rule slice_decomp [OF ok(1) wide ok(5)])
  then have Aeq: "A s = take (nat leftstart) (A s) @ slice (A s) leftstart leftend
                @ slice (A s) rightstart rightend @ drop (nat (rightend + 1)) (A s)"
    using slice_append [OF ok(1,2,4), of "A s"] ok(3) by simp
  have Beq: "B s = take (nat leftstart) (B s) @ slice (B s) leftstart rightend
                @ drop (nat (rightend + 1)) (B s)"
    by (rule slice_decomp [OF ok(1) wide ok(6)])
  have lens: "length (slice (A s) leftstart leftend) = nat (leftend + 1 - leftstart)"
    "length (slice (A s) rightstart rightend) = nat (rightend + 1 - rightstart)"
    "length (slice (B s) leftstart rightend) = nat (rightend + 1 - leftstart)"
    using ok by (simp_all add: length_slice)
  show ?thesis
    by (rule merge_decomp [OF Aeq Beq]) (use ok lens in simp_all)
qed

lemma parallel_mergesort_range:
  assumes "0 \<le> left a" and "left a \<le> right a + 1"
    and "right a < int (length (A s))" and "right a < int (length (B s))"
  shows "parallel_mergesort cutoff created a s
           = Some (s\<lparr>A := take (nat (left a)) (A s)
                            @ par_sort cutoff created a (slice (A s) (left a) (right a))
                            @ drop (nat (right a + 1)) (A s),
                      B := (if right a \<le> left a then B s
                            else take (nat (left a)) (B s)
                                   @ par_sort cutoff created a (slice (A s) (left a) (right a))
                                   @ drop (nat (right a + 1)) (B s))\<rparr>)"
proof -
  have Aeq: "A s = take (nat (left a)) (A s) @ slice (A s) (left a) (right a)
                @ drop (nat (right a + 1)) (A s)"
    by (rule slice_decomp [OF assms(1,2,3)])
  have Beq: "B s = take (nat (left a)) (B s) @ slice (B s) (left a) (right a)
                @ drop (nat (right a + 1)) (B s)"
    by (rule slice_decomp [OF assms(1,2,4)])
  have lens: "length (slice (A s) (left a) (right a)) = nat (right a + 1 - left a)"
    "length (slice (B s) (left a) (right a)) = nat (right a + 1 - left a)"
    using assms by (simp_all add: length_slice)
  have small: "length (slice (A s) (left a) (right a)) \<le> 1 \<longleftrightarrow> right a \<le> left a"
    using assms lens by linarith
  have "parallel_mergesort cutoff created a s
          = Some (s\<lparr>A := take (nat (left a)) (A s)
                            @ par_sort cutoff created a (slice (A s) (left a) (right a))
                            @ drop (nat (right a + 1)) (A s),
                     B := take (nat (left a)) (B s)
                            @ (if length (slice (A s) (left a) (right a)) \<le> 1
                               then slice (B s) (left a) (right a)
                               else par_sort cutoff created a (slice (A s) (left a) (right a)))
                            @ drop (nat (right a + 1)) (B s)\<rparr>)"
    by (rule parallel_mergesort_decomp [OF Aeq Beq]) (use assms lens in simp_all)
  then show ?thesis
    using small Beq by (cases "right a \<le> left a") simp_all
qed

lemma my_mergesort_range:
  assumes "0 \<le> l" and "l \<le> r + 1"
    and "r < int (length (A s))" and "r < int (length (B s))"
  shows "my_mergesort l r s
           = Some (s\<lparr>A := take (nat l) (A s) @ sort (slice (A s) l r) @ drop (nat (r + 1)) (A s),
                      B := (if r \<le> l then B s
                            else take (nat l) (B s) @ sort (slice (A s) l r)
                                   @ drop (nat (r + 1)) (B s))\<rparr>)"
proof -
  have Aeq: "A s = take (nat l) (A s) @ slice (A s) l r @ drop (nat (r + 1)) (A s)"
    by (rule slice_decomp [OF assms(1,2,3)])
  have Beq: "B s = take (nat l) (B s) @ slice (B s) l r @ drop (nat (r + 1)) (B s)"
    by (rule slice_decomp [OF assms(1,2,4)])
  have lens: "length (slice (A s) l r) = nat (r + 1 - l)"
    "length (slice (B s) l r) = nat (r + 1 - l)"
    using assms by (simp_all add: length_slice)
  have small: "length (slice (A s) l r) \<le> 1 \<longleftrightarrow> r \<le> l"
    using assms lens by linarith
  have "my_mergesort l r s
          = Some (s\<lparr>A := take (nat l) (A s) @ sort (slice (A s) l r) @ drop (nat (r + 1)) (A s),
                     B := take (nat l) (B s)
                            @ (if length (slice (A s) l r) \<le> 1 then slice (B s) l r
                               else sort (slice (A s) l r))
                            @ drop (nat (r + 1)) (B s)\<rparr>)"
    by (rule my_mergesort_decomp [OF Aeq Beq]) (use assms lens in simp_all)
  then show ?thesis
    using small Beq by (cases "r \<le> l") simp_all
qed

lemma slice_whole: "slice xs 0 (int (length xs) - 1) = xs"
  by (simp add: slice_def)

lemma parallel_mergesort_whole:
  assumes "length (A s) \<le> length (B s)"
  shows "parallel_mergesort cutoff created \<lparr>left = 0, right = int (length (A s)) - 1, level = 0\<rparr> s
           = Some (s\<lparr>A := par_sort cutoff created
                            \<lparr>left = 0, right = int (length (A s)) - 1, level = 0\<rparr> (A s),
                      B := (if length (A s) \<le> 1 then B s
                            else par_sort cutoff created
                                   \<lparr>left = 0, right = int (length (A s)) - 1, level = 0\<rparr> (A s)
                                 @ drop (length (A s)) (B s))\<rparr>)"
  using parallel_mergesort_range
          [of "\<lparr>left = 0, right = int (length (A s)) - 1, level = 0\<rparr>" s cutoff created] assms
  by (simp add: slice_whole)

lemma my_mergesort_whole:
  assumes "length (A s) \<le> length (B s)"
  shows "my_mergesort 0 (int (length (A s)) - 1) s
           = Some (s\<lparr>A := sort (A s),
                      B := (if length (A s) \<le> 1 then B s
                            else sort (A s) @ drop (length (A s)) (B s))\<rparr>)"
  using my_mergesort_range [of 0 "int (length (A s)) - 1" s] assms
  by (simp add: slice_whole)

section \<open>The driver's check and sortedness\<close>

lemma is_sorted_loop_suffix:
  assumes "A s = xa @ ys" and "i = int (length xa)" and "n = int (length (A s))"
  shows "is_sorted_loop n i s = Some (sorted ys)"
  using assms
proof (induction ys arbitrary: xa i)
  case Nil
  then show ?case by (subst is_sorted_loop.simps) simp
next
  case (Cons y ys)
  show ?case
  proof (cases ys)
    case Nil
    with Cons.prems show ?thesis by (subst is_sorted_loop.simps) simp
  next
    case (Cons z zs)
    have nth: "A s ! nat i = y" "A s ! nat (i + 1) = z"
      using Cons.prems Cons by (simp_all add: nat_add_distrib nth_append)
    have inb: "i < n - 1" "in_bounds (A s) i" "in_bounds (A s) (i + 1)"
      using Cons.prems Cons by (simp_all add: in_bounds_def)
    have "is_sorted_loop n (i + 1) s = Some (sorted ys)"
      by (rule Cons.IH [where xa = "xa @ [y]"]) (use Cons.prems in simp_all)
    then show ?thesis
      using nth inb Cons by (subst is_sorted_loop.simps) auto
  qed
qed

lemma is_sorted_sorted: "is_sorted (int (length (A s))) s = Some (sorted (A s))"
  unfolding is_sorted_def by (rule is_sorted_loop_suffix [where xa = "[]"]) simp_all

lemma sorted_adjacent:
  assumes "sorted (xs :: int list)" and "0 \<le> i" and "i + 1 \<le> int (length xs) - 1"
  shows "xs ! nat i \<le> xs ! nat (i + 1)"
proof -
  have "nat (i + 1) = Suc (nat i)" and "Suc (nat i) < length xs" using assms by linarith+
  with assms(1) show ?thesis by (simp add: sorted_iff_nth_Suc)
qed

section \<open>Calls of merge that return\<close>

lemma merge_loop2_Some:
  assumes "merge_loop2 leftend i k mvs s = Some (i', k', mvs', s')"
  shows "A s' = A s \<and> length (B s') = length (B s)
         \<and> (i \<le> leftend \<longrightarrow> 0 \<le> i \<and> leftend < int (length (A s))
                \<and> 0 \<le> k \<and> k + (leftend - i) < int (length (B s)))"
  using assms
proof (induction leftend i k mvs s rule: merge_loop2.induct)
  case (1 leftend i k mvs s)
  show ?case
  proof (cases "i \<le> leftend")
    case False
    with "1.prems" show ?thesis by (subst (asm) merge_loop2.simps) simp
  next
    case True
    let ?s = "s\<lparr>B := (B s)[nat k := A s ! nat i]\<rparr>"
    from "1.prems" True have inb: "in_bounds (A s) i \<and> in_bounds (B s) k"
      by (subst (asm) merge_loop2.simps) (simp split: if_splits)
    with "1.prems" True
    have next_call: "merge_loop2 leftend (i + 1) (k + 1) (mvs @ [(k, i)]) ?s = Some (i', k', mvs', s')"
      by (subst (asm) merge_loop2.simps) simp
    from "1.IH" [OF True inb next_call]
    have IH: "A s' = A s" "length (B s') = length (B s)"
      "i + 1 \<le> leftend \<longrightarrow> leftend < int (length (A s)) \<and> k + 1 + (leftend - (i + 1)) < int (length (B s))"
      by simp_all
    show ?thesis
    proof (cases "i + 1 \<le> leftend")
      case True
      with IH inb show ?thesis by (simp add: in_bounds_def)
    next
      case False
      with True have "i = leftend" by simp
      with IH inb show ?thesis by (simp add: in_bounds_def)
    qed
  qed
qed

lemma merge_loop3_Some:
  assumes "merge_loop3 rightend j k mvs s = Some (j', k', mvs', s')"
  shows "A s' = A s \<and> length (B s') = length (B s)
         \<and> (j \<le> rightend \<longrightarrow> 0 \<le> j \<and> rightend < int (length (A s))
                \<and> 0 \<le> k \<and> k + (rightend - j) < int (length (B s)))"
  using assms
proof (induction rightend j k mvs s rule: merge_loop3.induct)
  case (1 rightend j k mvs s)
  show ?case
  proof (cases "j \<le> rightend")
    case False
    with "1.prems" show ?thesis by (subst (asm) merge_loop3.simps) simp
  next
    case True
    let ?s = "s\<lparr>B := (B s)[nat k := A s ! nat j]\<rparr>"
    from "1.prems" True have inb: "in_bounds (A s) j \<and> in_bounds (B s) k"
      by (subst (asm) merge_loop3.simps) (simp split: if_splits)
    with "1.prems" True
    have next_call: "merge_loop3 rightend (j + 1) (k + 1) (mvs @ [(k, j)]) ?s = Some (j', k', mvs', s')"
      by (subst (asm) merge_loop3.simps) simp
    from "1.IH" [OF True inb next_call]
    have IH: "A s' = A s" "length (B s') = length (B s)"
      "j + 1 \<le> rightend \<longrightarrow> rightend < int (length (A s))
         \<and> k + 1 + (rightend - (j + 1)) < int (length (B s))"
      by simp_all
    show ?thesis
    proof (cases "j + 1 \<le> rightend")
      case True
      with IH inb show ?thesis by (simp add: in_bounds_def)
    next
      case False
      with True have "j = rightend" by simp
      with IH inb show ?thesis by (simp add: in_bounds_def)
    qed
  qed
qed

lemma merge_loop1_Some:
  assumes "merge_loop1 leftend rightend i j k mvs s = Some (i', j', k', mvs', s')"
  shows "A s' = A s \<and> length (B s') = length (B s)"
  using assms
proof (induction leftend rightend i j k mvs s rule: merge_loop1.induct)
  case (1 leftend rightend i j k mvs s)
  show ?case
  proof (cases "i \<le> leftend \<and> j \<le> rightend")
    case False
    with "1.prems" show ?thesis by (subst (asm) merge_loop1.simps) auto
  next
    case True
    from "1.prems" True have inb: "in_bounds (A s) i \<and> in_bounds (A s) j \<and> in_bounds (B s) k"
      by (subst (asm) merge_loop1.simps) (simp split: if_splits)
    show ?thesis
    proof (cases "A s ! nat i \<le> A s ! nat j")
      case le: True
      with "1.prems" True inb
      have "merge_loop1 leftend rightend (i + 1) j (k + 1) (mvs @ [(k, i)])
                (s\<lparr>B := (B s)[nat k := A s ! nat i]\<rparr>)
              = Some (i', j', k', mvs', s')"
        by (subst (asm) merge_loop1.simps) simp
      from "1.IH"(1) [OF True inb le this] show ?thesis by simp
    next
      case gt: False
      with "1.prems" True inb
      have "merge_loop1 leftend rightend i (j + 1) (k + 1) (mvs @ [(k, j)])
                (s\<lparr>B := (B s)[nat k := A s ! nat j]\<rparr>)
              = Some (i', j', k', mvs', s')"
        by (subst (asm) merge_loop1.simps) simp
      from "1.IH"(2) [OF True inb gt this] show ?thesis by simp
    qed
  qed
qed

text \<open>What every call of \<open>merge\<close> that stays inside the arrays does to \<open>A\<close>.\<close>

lemma merge_Some_A:
  assumes "merge leftstart leftend rightstart rightend s = Some s'"
  shows "0 \<le> leftstart" and "leftstart \<le> rightend + 1"
    and "rightend < int (length (A s))" and "rightend < int (length (B s))"
    and "length (A s') = length (A s)" and "length (B s') = length (B s)"
    and "take (nat leftstart) (A s') = take (nat leftstart) (A s)"
    and "drop (nat (rightend + 1)) (A s') = drop (nat (rightend + 1)) (A s)"
proof -
  from assms obtain i j k mvs1 s1 i' k' mvs2 s2 j' k'' mvs3 s3 where
    l1: "merge_loop1 leftend rightend leftstart rightstart leftstart [] s = Some (i, j, k, mvs1, s1)"
    and l2: "merge_loop2 leftend i k mvs1 s1 = Some (i', k', mvs2, s2)"
    and l3: "merge_loop3 rightend j k' mvs2 s2 = Some (j', k'', mvs3, s3)"
    and cp: "memcpy_A_B leftstart (rightend - leftstart + 1) s3 = Some s'"
    by (auto simp: merge_def merge_traced_def split: option.splits prod.splits)
  have same: "A s3 = A s" "length (B s3) = length (B s)"
    using merge_loop1_Some [OF l1] merge_loop2_Some [OF l2] merge_loop3_Some [OF l3] by simp_all
  from cp have ok: "0 \<le> rightend - leftstart + 1" "0 \<le> leftstart"
    "rightend + 1 \<le> int (length (A s))" "rightend + 1 \<le> int (length (B s))"
    using same by (simp_all add: memcpy_A_B_def split: if_splits)
  define blk where "blk = take (nat (rightend - leftstart + 1)) (drop (nat leftstart) (B s3))"
  from cp have s': "s' = s3\<lparr>A := take (nat leftstart) (A s) @ blk @ drop (nat (rightend + 1)) (A s)\<rparr>"
    using same by (simp add: memcpy_A_B_def blk_def split: if_splits)
  have lb: "length blk = nat (rightend + 1 - leftstart)"
    using ok same unfolding blk_def by (simp; linarith)
  have lt: "length (take (nat leftstart) (A s)) = nat leftstart"
    using ok by (simp; linarith)
  show "0 \<le> leftstart" "leftstart \<le> rightend + 1"
    "rightend < int (length (A s))" "rightend < int (length (B s))"
    using ok by simp_all
  show "length (B s') = length (B s)" using s' same by simp
  show "length (A s') = length (A s)"
    using s' lb lt ok by (simp; linarith)
  show "take (nat leftstart) (A s') = take (nat leftstart) (A s)"
    using s' lt by simp
  define front where "front = take (nat leftstart) (A s) @ blk"
  have lf: "nat (rightend + 1) = length front"
    using lb lt ok unfolding front_def by (simp; linarith)
  have "A s' = front @ drop (nat (rightend + 1)) (A s)"
    using s' by (simp add: front_def)
  then have "drop (length front) (A s') = drop (nat (rightend + 1)) (A s)"
    by (metis append_eq_conv_conj)
  then show "drop (nat (rightend + 1)) (A s') = drop (nat (rightend + 1)) (A s)"
    using lf by simp
qed

lemma map_nth_upto:
  assumes "0 \<le> l" and "l \<le> r + 1" and "r < int (length xs)"
  shows "map (\<lambda>p. xs ! nat p) [l..r] = slice xs l r"
proof -
  have dec: "xs = take (nat l) xs @ [] @ [] @ slice xs l r @ drop (nat (r + 1)) xs"
    using slice_decomp [OF assms] by simp
  have "map (\<lambda>p. xs ! nat p) (merge_sources xs (l - 1) r l l) = merged [] (slice xs l r)"
    by (rule map_merge_sources [OF dec]) (use assms in \<open>simp_all add: length_slice\<close>)
  then show ?thesis by (simp add: merge_sources_left_done)
qed

lemma memcpy_A_B_slice:
  assumes "memcpy_A_B start n s3 = Some s'" and "n = r + 1 - start"
  shows "slice (A s') start r = take (nat n) (drop (nat start) (B s3))"
proof -
  from assms(1) have ok: "0 \<le> n" "0 \<le> start" "start + n \<le> int (length (A s3))"
    "start + n \<le> int (length (B s3))"
    and s': "A s' = take (nat start) (A s3) @ take (nat n) (drop (nat start) (B s3))
                @ drop (nat (start + n)) (A s3)"
    by (auto simp: memcpy_A_B_def split: if_splits)
  have "length (take (nat start) (A s3)) = nat start" using ok by (simp; linarith)
  moreover have "length (take (nat n) (drop (nat start) (B s3))) = nat (r + 1 - start)"
    using ok assms(2) by (simp; linarith)
  ultimately show ?thesis unfolding s' by (rule slice_parts)
qed

lemma merge_Some_loops:
  assumes "merge leftstart leftend rightstart rightend s = Some s'"
  obtains mvs s3 where
    "merge_loops leftend rightend leftstart rightstart leftstart [] s = Some (mvs, s3)"
    and "memcpy_A_B leftstart (rightend - leftstart + 1) s3 = Some s'"
  using assms by (auto simp: merge_via_loops split: option.splits)

text \<open>
  The values that \<open>merge\<close> copies back, in the three shapes a call with
  \<open>rightstart = leftend + 1\<close> can have: the left range is empty because \<open>leftstart\<close>
  lies beyond its end, the right range is empty in the same way, or both are index ranges.
\<close>

lemma merge_Some_window:
  assumes run: "merge leftstart leftend rightstart rightend s = Some s'"
    and adj: "rightstart = leftend + 1"
  shows "slice (A s') leftstart rightend
           = take (nat (rightend + 1 - leftstart))
               (map (\<lambda>p. A s ! nat p) (merge_sources (A s) leftend rightend leftstart rightstart))"
    and "map (\<lambda>p. A s ! nat p) (merge_sources (A s) leftend rightend leftstart rightstart)
           = (if leftend + 1 < leftstart then slice (A s) rightstart rightend
              else if rightend + 1 < rightstart then slice (A s) leftstart leftend
              else merged (slice (A s) leftstart leftend) (slice (A s) rightstart rightend))"
    and "leftstart \<le> leftend \<longrightarrow> leftend < int (length (A s))"
    and "rightstart \<le> rightend \<longrightarrow> rightend < int (length (A s))"
proof -
  let ?n = "nat (rightend + 1 - leftstart)"
  let ?src = "merge_sources (A s) leftend rightend leftstart rightstart"
  let ?vals = "map (\<lambda>p. A s ! nat p) ?src"
  from run obtain mvs s3 where
    loops: "merge_loops leftend rightend leftstart rightstart leftstart [] s = Some (mvs, s3)"
    and cp: "memcpy_A_B leftstart (rightend - leftstart + 1) s3 = Some s'"
    by (rule merge_Some_loops)
  have win: "slice (A s') leftstart rightend = take ?n (drop (nat leftstart) (B s3))"
    using memcpy_A_B_slice [OF cp, of rightend] by (simp add: algebra_simps)
  note bnd = merge_Some_A [OF run]
  show "rightstart \<le> rightend \<longrightarrow> rightend < int (length (A s))"
    using bnd(3) by simp
  have "slice (A s') leftstart rightend = take ?n ?vals
        \<and> ?vals = (if leftend + 1 < leftstart then slice (A s) rightstart rightend
              else if rightend + 1 < rightstart then slice (A s) leftstart leftend
              else merged (slice (A s) leftstart leftend) (slice (A s) rightstart rightend))
        \<and> (leftstart \<le> leftend \<longrightarrow> leftend < int (length (A s)))"
  proof (cases "leftend + 1 < leftstart")
    case True
    have l1: "merge_loop1 leftend rightend leftstart rightstart leftstart [] s
                = Some (leftstart, rightstart, leftstart, [], s)"
      using True by (subst merge_loop1.simps) simp
    have l2: "merge_loop2 leftend leftstart leftstart [] s = Some (leftstart, leftstart, [], s)"
      using True by (subst merge_loop2.simps) simp
    from loops l1 l2 obtain j' k' where
      l3: "merge_loop3 rightend rightstart leftstart [] s = Some (j', k', mvs, s3)"
      by (auto simp: merge_loops_def split: option.splits)
    have nonempty: "rightstart \<le> rightend" using True adj bnd(2) by simp
    from merge_loop3_Some [OF l3] nonempty
    have b3: "0 \<le> rightstart" "rightend < int (length (A s))"
      "leftstart + (rightend - rightstart) < int (length (B s))"
      by simp_all
    define top where "top = leftstart + (rightend - rightstart)"
    have Aeq: "A s = take (nat rightstart) (A s) @ slice (A s) rightstart rightend
                  @ drop (nat (rightend + 1)) (A s)"
      by (rule slice_decomp) (use b3 nonempty in simp_all)
    have Beq: "B s = take (nat leftstart) (B s) @ slice (B s) leftstart top
                  @ drop (nat (top + 1)) (B s)"
      by (rule slice_decomp) (use b3 bnd(1) nonempty in \<open>simp_all add: top_def\<close>)
    have lens: "length (slice (A s) rightstart rightend) = nat (rightend + 1 - rightstart)"
      "length (slice (B s) leftstart top) = nat (rightend + 1 - rightstart)"
      using b3 bnd(1) nonempty by (simp_all add: length_slice top_def)
    have "merge_loop3 rightend rightstart leftstart [] s
            = Some (rightend + 1, leftstart + int (length (slice (A s) rightstart rightend)),
                [] @ moves_from leftstart [rightstart..rightend],
                s\<lparr>B := take (nat leftstart) (B s) @ slice (A s) rightstart rightend
                         @ drop (nat (top + 1)) (B s)\<rparr>)"
      by (rule merge_loop3_copies [OF Aeq Beq])
         (use b3 bnd(1) nonempty lens in simp_all)
    with l3 have B3: "B s3 = take (nat leftstart) (B s) @ slice (A s) rightstart rightend
                         @ drop (nat (top + 1)) (B s)"
      by auto
    have "length (take (nat leftstart) (B s)) = nat leftstart"
      using b3 bnd(1) nonempty by (simp; linarith)
    then have "drop (nat leftstart) (B s3) = slice (A s) rightstart rightend
                         @ drop (nat (top + 1)) (B s)"
      unfolding B3 by (metis append_eq_conv_conj)
    moreover have "?n \<le> length (slice (A s) rightstart rightend)"
      using lens True adj by simp
    ultimately have "take ?n (drop (nat leftstart) (B s3))
                       = take ?n (slice (A s) rightstart rightend)"
      by simp
    moreover have "?vals = slice (A s) rightstart rightend"
      using True map_nth_upto [of rightstart rightend "A s"] b3 nonempty
      by (simp add: merge_sources_left_done)
    ultimately show ?thesis using win True by simp
  next
    case wf_left: False
    show ?thesis
    proof (cases "rightend + 1 < rightstart")
      case True
      have l1: "merge_loop1 leftend rightend leftstart rightstart leftstart [] s
                  = Some (leftstart, rightstart, leftstart, [], s)"
        using True by (subst merge_loop1.simps) simp
      have l3: "merge_loop3 rightend rightstart k ms t = Some (rightstart, k, ms, t)" for k ms t
        using True by (subst merge_loop3.simps) simp
      from loops l1 l3 obtain i' k' where
        l2: "merge_loop2 leftend leftstart leftstart [] s = Some (i', k', mvs, s3)"
        by (auto simp: merge_loops_def split: option.splits)
      have nonempty: "leftstart \<le> leftend" using True adj bnd(2) by simp
      from merge_loop2_Some [OF l2] nonempty
      have b2: "leftend < int (length (A s))" "leftend < int (length (B s))"
        by simp_all
      have Aeq: "A s = take (nat leftstart) (A s) @ slice (A s) leftstart leftend
                    @ drop (nat (leftend + 1)) (A s)"
        by (rule slice_decomp) (use b2 bnd(1) nonempty in simp_all)
      have Beq: "B s = take (nat leftstart) (B s) @ slice (B s) leftstart leftend
                    @ drop (nat (leftend + 1)) (B s)"
        by (rule slice_decomp) (use b2 bnd(1) nonempty in simp_all)
      have lens: "length (slice (A s) leftstart leftend) = nat (leftend + 1 - leftstart)"
        "length (slice (B s) leftstart leftend) = nat (leftend + 1 - leftstart)"
        using b2 bnd(1) nonempty by (simp_all add: length_slice)
      have "merge_loop2 leftend leftstart leftstart [] s
              = Some (leftend + 1, leftstart + int (length (slice (A s) leftstart leftend)),
                  [] @ moves_from leftstart [leftstart..leftend],
                  s\<lparr>B := take (nat leftstart) (B s) @ slice (A s) leftstart leftend
                           @ drop (nat (leftend + 1)) (B s)\<rparr>)"
        by (rule merge_loop2_copies [OF Aeq Beq])
           (use b2 bnd(1) nonempty lens in simp_all)
      with l2 have B3: "B s3 = take (nat leftstart) (B s) @ slice (A s) leftstart leftend
                           @ drop (nat (leftend + 1)) (B s)"
        by auto
      have "length (take (nat leftstart) (B s)) = nat leftstart"
        using b2 bnd(1) nonempty by (simp; linarith)
      then have "drop (nat leftstart) (B s3) = slice (A s) leftstart leftend
                           @ drop (nat (leftend + 1)) (B s)"
        unfolding B3 by (metis append_eq_conv_conj)
      moreover have "?n \<le> length (slice (A s) leftstart leftend)"
        using lens True adj by simp
      ultimately have "take ?n (drop (nat leftstart) (B s3))
                         = take ?n (slice (A s) leftstart leftend)"
        by simp
      moreover have "?vals = slice (A s) leftstart leftend"
        using True map_nth_upto [of leftstart leftend "A s"] b2 bnd(1) nonempty
        by (simp add: merge_sources_right_done)
      ultimately show ?thesis using win True wf_left b2 by simp
    next
      case wf_right: False
      have ok: "merge_ranges_ok leftstart leftend rightstart rightend s"
        using wf_left wf_right adj bnd by (simp add: merge_ranges_ok_def)
      let ?M = "merged (slice (A s) leftstart leftend) (slice (A s) rightstart rightend)"
      have lenM: "length ?M = ?n"
        using wf_left wf_right adj bnd by (simp add: length_merged length_slice; linarith)
      have lenP: "length (take (nat leftstart) (A s)) = nat leftstart"
        using bnd by (simp; linarith)
      have "A s' = take (nat leftstart) (A s) @ ?M @ drop (nat (rightend + 1)) (A s)"
        using merge_range [OF ok] run by auto
      then have "slice (A s') leftstart rightend = ?M"
        using slice_parts [OF lenP lenM] by simp
      moreover have Aeq: "A s = take (nat leftstart) (A s) @ slice (A s) leftstart leftend @ []
                    @ slice (A s) rightstart rightend @ drop (nat (rightend + 1)) (A s)"
        using slice_decomp [of leftstart rightend "A s"]
          slice_append [of leftstart leftend rightend "A s"] wf_left wf_right adj bnd
        by simp
      have "?vals = ?M"
        by (rule map_merge_sources [OF Aeq])
           (use wf_left wf_right adj bnd in \<open>simp_all add: length_slice\<close>)
      moreover have "leftend < int (length (A s))" using wf_right adj bnd(3) by simp
      ultimately show ?thesis using wf_left wf_right lenM by simp
    qed
  qed
  then show "slice (A s') leftstart rightend = take ?n ?vals"
    and "?vals = (if leftend + 1 < leftstart then slice (A s) rightstart rightend
              else if rightend + 1 < rightstart then slice (A s) leftstart leftend
              else merged (slice (A s) leftstart leftend) (slice (A s) rightstart rightend))"
    and "leftstart \<le> leftend \<longrightarrow> leftend < int (length (A s))"
    by simp_all
qed

lemma sorted_slice_nth:
  assumes "sorted (slice xs l r)" and "0 \<le> l" and "r < int (length xs)"
    and "l \<le> x" and "x \<le> y" and "y \<le> r"
  shows "xs ! nat x \<le> xs ! nat y"
proof -
  have len: "length (slice xs l r) = nat (r + 1 - l)"
    using assms by (simp add: length_slice)
  have "nat (x - l) \<le> nat (y - l)" and "nat (y - l) < length (slice xs l r)"
    using assms len by linarith+
  with assms(1) have "slice xs l r ! nat (x - l) \<le> slice xs l r ! nat (y - l)"
    by (rule sorted_nth_mono)
  then show ?thesis
    using nth_slice [of l x r xs] nth_slice [of l y r xs] assms by simp
qed

lemma merge_Some_A_determined:
  assumes "merge leftstart leftend rightstart rightend s = Some s'"
    and "rightstart = leftend + 1"
  shows "A s' = take (nat leftstart) (A s)
                @ take (nat (rightend + 1 - leftstart))
                    (map (\<lambda>p. A s ! nat p)
                       (merge_sources (A s) leftend rightend leftstart rightstart))
                @ drop (nat (rightend + 1)) (A s)"
proof -
  note bnd = merge_Some_A [OF assms(1)]
  have dec: "A s' = take (nat leftstart) (A s') @ slice (A s') leftstart rightend
                 @ drop (nat (rightend + 1)) (A s')"
    by (rule slice_decomp) (use bnd in simp_all)
  show ?thesis
    by (subst dec) (simp only: bnd(7) bnd(8) merge_Some_window(1) [OF assms])
qed

section \<open>The assignments of merge\<close>

lemma merge_loop2_moves:
  assumes "merge_loop2 leftend i k mvs s = Some (i', k', mvs', s')"
  shows "mvs' = mvs @ moves_from k [i..leftend] \<and> k' = k + int (length [i..leftend])"
  using assms
proof (induction leftend i k mvs s rule: merge_loop2.induct)
  case (1 leftend i k mvs s)
  show ?case
  proof (cases "i \<le> leftend")
    case False
    with "1.prems" show ?thesis by (subst (asm) merge_loop2.simps) simp
  next
    case True
    let ?s = "s\<lparr>B := (B s)[nat k := A s ! nat i]\<rparr>"
    from "1.prems" True have inb: "in_bounds (A s) i \<and> in_bounds (B s) k"
      by (subst (asm) merge_loop2.simps) (simp split: if_splits)
    with "1.prems" True
    have next_call: "merge_loop2 leftend (i + 1) (k + 1) (mvs @ [(k, i)]) ?s = Some (i', k', mvs', s')"
      by (subst (asm) merge_loop2.simps) simp
    have upto: "[i..leftend] = i # [i + 1..leftend]"
      using True by (rule upto_rec1)
    from "1.IH" [OF True inb next_call] show ?thesis
      by (simp add: upto)
  qed
qed

lemma merge_loop3_moves:
  assumes "merge_loop3 rightend j k mvs s = Some (j', k', mvs', s')"
  shows "mvs' = mvs @ moves_from k [j..rightend] \<and> k' = k + int (length [j..rightend])"
  using assms
proof (induction rightend j k mvs s rule: merge_loop3.induct)
  case (1 rightend j k mvs s)
  show ?case
  proof (cases "j \<le> rightend")
    case False
    with "1.prems" show ?thesis by (subst (asm) merge_loop3.simps) simp
  next
    case True
    let ?s = "s\<lparr>B := (B s)[nat k := A s ! nat j]\<rparr>"
    from "1.prems" True have inb: "in_bounds (A s) j \<and> in_bounds (B s) k"
      by (subst (asm) merge_loop3.simps) (simp split: if_splits)
    with "1.prems" True
    have next_call: "merge_loop3 rightend (j + 1) (k + 1) (mvs @ [(k, j)]) ?s = Some (j', k', mvs', s')"
      by (subst (asm) merge_loop3.simps) simp
    have upto: "[j..rightend] = j # [j + 1..rightend]"
      using True by (rule upto_rec1)
    from "1.IH" [OF True inb next_call] show ?thesis
      by (simp add: upto)
  qed
qed

lemma merge_loop1_moves:
  assumes "merge_loop1 leftend rightend i j k mvs s = Some (i', j', k', mvs', s')"
  shows "\<exists>src. mvs' = mvs @ moves_from k src \<and> k' = k + int (length src)
           \<and> merge_sources (A s) leftend rightend i j
               = src @ merge_sources (A s) leftend rightend i' j'
           \<and> \<not> (i' \<le> leftend \<and> j' \<le> rightend)"
  using assms
proof (induction leftend rightend i j k mvs s rule: merge_loop1.induct)
  case (1 leftend rightend i j k mvs s)
  show ?case
  proof (cases "i \<le> leftend \<and> j \<le> rightend")
    case False
    with "1.prems" have "i' = i" "j' = j" "k' = k" "mvs' = mvs"
      by (subst (asm) merge_loop1.simps; auto)+
    with False show ?thesis by (intro exI [of _ "[]"]) simp
  next
    case True
    from "1.prems" True have inb: "in_bounds (A s) i \<and> in_bounds (A s) j \<and> in_bounds (B s) k"
      by (subst (asm) merge_loop1.simps) (simp split: if_splits)
    show ?thesis
    proof (cases "A s ! nat i \<le> A s ! nat j")
      case le: True
      let ?s = "s\<lparr>B := (B s)[nat k := A s ! nat i]\<rparr>"
      from "1.prems" True inb le
      have "merge_loop1 leftend rightend (i + 1) j (k + 1) (mvs @ [(k, i)]) ?s
              = Some (i', j', k', mvs', s')"
        by (subst (asm) merge_loop1.simps) simp
      from "1.IH"(1) [OF True inb le this] obtain src where
        src: "mvs' = (mvs @ [(k, i)]) @ moves_from (k + 1) src" "k' = k + 1 + int (length src)"
          "merge_sources (A s) leftend rightend (i + 1) j
             = src @ merge_sources (A s) leftend rightend i' j'"
          "\<not> (i' \<le> leftend \<and> j' \<le> rightend)"
        by auto
      have "merge_sources (A s) leftend rightend i j
              = i # merge_sources (A s) leftend rightend (i + 1) j"
        using True le by (subst merge_sources.simps) simp
      with src show ?thesis by (intro exI [of _ "i # src"]) simp
    next
      case gt: False
      let ?s = "s\<lparr>B := (B s)[nat k := A s ! nat j]\<rparr>"
      from "1.prems" True inb gt
      have "merge_loop1 leftend rightend i (j + 1) (k + 1) (mvs @ [(k, j)]) ?s
              = Some (i', j', k', mvs', s')"
        by (subst (asm) merge_loop1.simps) simp
      from "1.IH"(2) [OF True inb gt this] obtain src where
        src: "mvs' = (mvs @ [(k, j)]) @ moves_from (k + 1) src" "k' = k + 1 + int (length src)"
          "merge_sources (A s) leftend rightend i (j + 1)
             = src @ merge_sources (A s) leftend rightend i' j'"
          "\<not> (i' \<le> leftend \<and> j' \<le> rightend)"
        by auto
      have "merge_sources (A s) leftend rightend i j
              = j # merge_sources (A s) leftend rightend i (j + 1)"
        using True gt by (subst merge_sources.simps) simp
      with src show ?thesis by (intro exI [of _ "j # src"]) simp
    qed
  qed
qed

lemma merge_sources_after_loop1:
  assumes "\<not> (i \<le> leftend \<and> j \<le> rightend)"
  shows "merge_sources a leftend rightend i j = [i..leftend] @ [j..rightend]"
proof (cases "i \<le> leftend")
  case True
  with assms have "rightend < j" by simp
  then show ?thesis by (simp add: merge_sources_right_done)
next
  case False
  then have "leftend < i" by simp
  then show ?thesis by (simp add: merge_sources_left_done)
qed

text \<open>
  The list of assignments of every call of \<open>merge\<close> that returns: the writes go to
  \<open>B[leftstart]\<close>, \<open>B[leftstart + 1]\<close>, ... and read the indices \<open>merge_sources\<close> lists.
\<close>

lemma merge_traced_moves:
  assumes "merge_traced leftstart leftend rightstart rightend s = Some (mvs, s')"
  shows "mvs = moves_from leftstart (merge_sources (A s) leftend rightend leftstart rightstart)"
proof -
  from assms obtain i j k mvs1 s1 i' k' mvs2 s2 j' k'' s3 where
    l1: "merge_loop1 leftend rightend leftstart rightstart leftstart [] s = Some (i, j, k, mvs1, s1)"
    and l2: "merge_loop2 leftend i k mvs1 s1 = Some (i', k', mvs2, s2)"
    and l3: "merge_loop3 rightend j k' mvs2 s2 = Some (j', k'', mvs, s3)"
    by (auto simp: merge_traced_def split: option.splits prod.splits)
  from merge_loop1_moves [OF l1] obtain src where
    src: "mvs1 = moves_from leftstart src" "k = leftstart + int (length src)"
      "merge_sources (A s) leftend rightend leftstart rightstart
         = src @ merge_sources (A s) leftend rightend i j"
      "\<not> (i \<le> leftend \<and> j \<le> rightend)"
    by auto
  have rest: "merge_sources (A s) leftend rightend i j = [i..leftend] @ [j..rightend]"
    using src(4) by (rule merge_sources_after_loop1)
  from merge_loop2_moves [OF l2]
  have m2: "mvs2 = mvs1 @ moves_from k [i..leftend]" "k' = k + int (length [i..leftend])"
    by simp_all
  from merge_loop3_moves [OF l3]
  have m3: "mvs = mvs2 @ moves_from k' [j..rightend]"
    by simp
  show ?thesis
    unfolding src(3) rest m3 m2 src(1,2)
    by (simp add: moves_from_append algebra_simps)
qed

lemma merge_traced_merge:
  "merge leftstart leftend rightstart rightend s = Some s'
     \<longleftrightarrow> (\<exists>mvs. merge_traced leftstart leftend rightstart rightend s = Some (mvs, s'))"
  by (auto simp: merge_def)

section \<open>The recursive calls of the two sorts\<close>

text \<open>
  The function package derives, from the defining equation of a function \<open>f\<close>, the
  relation \<open>f_rel\<close> between the arguments of a recursive call and the arguments of the
  call that makes it; \<open>f_dom x\<close> says that no infinite chain of recursive calls starts
  from \<open>x\<close>. The lemmas of this section read the two relations off.
\<close>

lemma my_mergesort_rel_halves:
  assumes "my_mergesort_rel (l', r', s') (l, r, s)"
  shows "l < r \<and> (\<exists>mid. midpoint l r = Some mid
                       \<and> ((l', r', s') = (l, mid, s) \<or> (l', r') = (mid + 1, r)))"
  using assms by (cases rule: my_mergesort_rel.cases) auto

lemma my_mergesort_rel_left:
  assumes "l < r" and "midpoint l r = Some mid"
  shows "my_mergesort_rel (l, mid, s) (l, r, s)"
  using assms by (intro my_mergesort_rel.intros(1)) simp_all

lemma my_mergesort_rel_inside:
  assumes "my_mergesort_rel (l', r', s') (l, r, s)"
  shows "l \<le> l' \<and> l' \<le> r' \<and> r' \<le> r \<and> r' - l' < r - l"
proof -
  from my_mergesort_rel_halves [OF assms] obtain mid where
    lr: "l < r" and mp: "midpoint l r = Some mid"
    and call: "(l', r', s') = (l, mid, s) \<or> (l', r') = (mid + 1, r)"
    by auto
  note m = midpoint_bounds [OF mp lr]
  from call m lr show ?thesis by auto
qed

lemma my_mergesort_rel_paths:
  assumes "my_mergesort_rel\<^sup>*\<^sup>* x (l, r, s)"
  shows "x = (l, r, s) \<or> (l \<le> fst x \<and> fst x \<le> fst (snd x) \<and> fst (snd x) \<le> r)"
  using assms
proof (induction rule: converse_rtranclp_induct)
  case base
  show ?case by simp
next
  case (step x y)
  obtain l' r' s' where x: "x = (l', r', s')" by (cases x) auto
  obtain l'' r'' s'' where y: "y = (l'', r'', s'')" by (cases y) auto
  from step.hyps(1) have in1: "l'' \<le> l' \<and> l' \<le> r' \<and> r' \<le> r''"
    unfolding x y using my_mergesort_rel_inside by blast
  from step.IH show ?case
  proof
    assume "y = (l, r, s)"
    with in1 x y show ?thesis by simp
  next
    assume "l \<le> fst y \<and> fst y \<le> fst (snd y) \<and> fst (snd y) \<le> r"
    with in1 x y show ?thesis by simp
  qed
qed

lemma my_mergesort_total: "my_mergesort_dom x"
proof -
  have "wf {(y, x). my_mergesort_rel y x}"
  proof (rule wf_subset [of "measure (\<lambda>(l, r, s). nat (r - l))"])
    show "{(y, x). my_mergesort_rel y x} \<subseteq> measure (\<lambda>(l, r, s). nat (r - l))"
      by (auto dest!: my_mergesort_rel_inside)
  qed simp
  then have "wfp my_mergesort_rel" by (simp add: wfp_def)
  then show ?thesis by (rule accp_wfpD)
qed





section \<open>The two children of a fan-out\<close>

text \<open>
  What the code does for one half: the routine runs on the descriptor when the thread
  was created, and nothing happens when it was not.
\<close>

lemma child_decomp:
  assumes "A s = pre @ xs @ post" and "B s = bpre @ bm @ bpost"
    and "length bpre = length pre" and "length bm = length xs"
    and "left a = int (length pre)" and "right a = int (length pre) + int (length xs) - 1"
  shows "(if created a then parallel_mergesort cutoff created a s else Some s)
           = Some (s\<lparr>A := pre @ (if created a then par_sort cutoff created a xs else xs) @ post,
                      B := bpre @ (if created a \<and> \<not> length xs \<le> 1
                                   then par_sort cutoff created a xs else bm) @ bpost\<rparr>)"
proof (cases "created a")
  case True
  then show ?thesis
    using parallel_mergesort_decomp [OF assms, of cutoff created] by simp
next
  case False
  have "s\<lparr>A := pre @ xs @ post, B := bpre @ bm @ bpost\<rparr> = s\<lparr>A := A s, B := B s\<rparr>"
    by (simp only: assms(1,2))
  with False show ?thesis by simp
qed

lemma children_commute:
  assumes "0 \<le> left a" and "left a < right a"
    and "right a < int (length (A s))" and "right a < int (length (B s))"
    and "midpoint (left a) (right a) = Some mid"
    and "leftArg = buildArgs (left a) mid (level a + 1)"
    and "rightArg = buildArgs (mid + 1) (right a) (level a + 1)"
  shows "\<exists>s1 s2 s12.
           (if created leftArg then parallel_mergesort cutoff created leftArg s else Some s)
             = Some s1
         \<and> (if created rightArg then parallel_mergesort cutoff created rightArg s else Some s)
             = Some s2
         \<and> (if created rightArg then parallel_mergesort cutoff created rightArg s1 else Some s1)
             = Some s12
         \<and> (if created leftArg then parallel_mergesort cutoff created leftArg s2 else Some s2)
             = Some s12"
proof -
  have m: "left a \<le> mid" "mid < right a"
    using midpoint_bounds [OF assms(5,2)] by simp_all
  define pre where "pre = take (nat (left a)) (A s)"
  define us where "us = slice (A s) (left a) mid"
  define vs where "vs = slice (A s) (mid + 1) (right a)"
  define post where "post = drop (nat (right a + 1)) (A s)"
  define bpre where "bpre = take (nat (left a)) (B s)"
  define b1 where "b1 = slice (B s) (left a) mid"
  define b2 where "b2 = slice (B s) (mid + 1) (right a)"
  define bpost where "bpost = drop (nat (right a + 1)) (B s)"
  have Aeq: "A s = pre @ us @ vs @ post"
    using slice_decomp [of "left a" "right a" "A s"] slice_append [of "left a" mid "right a" "A s"]
      assms(1,3) m by (simp add: pre_def us_def vs_def post_def)
  have Beq: "B s = bpre @ b1 @ b2 @ bpost"
    using slice_decomp [of "left a" "right a" "B s"] slice_append [of "left a" mid "right a" "B s"]
      assms(1,4) m by (simp add: bpre_def b1_def b2_def bpost_def)
  have lens: "length pre = nat (left a)" "length bpre = nat (left a)"
    "length us = nat (mid + 1 - left a)" "length b1 = nat (mid + 1 - left a)"
    "length vs = nat (right a - mid)" "length b2 = nat (right a - mid)"
    using assms(1,3,4) m
    by (simp_all add: pre_def bpre_def us_def b1_def vs_def b2_def length_slice; linarith)+
  define us' where "us' = (if created leftArg then par_sort cutoff created leftArg us else us)"
  define vs' where "vs' = (if created rightArg then par_sort cutoff created rightArg vs else vs)"
  define c1 where "c1 = (if created leftArg \<and> \<not> length us \<le> 1
                         then par_sort cutoff created leftArg us else b1)"
  define c2 where "c2 = (if created rightArg \<and> \<not> length vs \<le> 1
                         then par_sort cutoff created rightArg vs else b2)"
  have lenc: "length us' = length us" "length vs' = length vs"
    "length c1 = length us" "length c2 = length vs"
    using lens by (simp_all add: us'_def vs'_def c1_def c2_def length_par_sort)
  let ?s1 = "s\<lparr>A := pre @ us' @ vs @ post, B := bpre @ c1 @ b2 @ bpost\<rparr>"
  let ?s2 = "s\<lparr>A := pre @ us @ vs' @ post, B := bpre @ b1 @ c2 @ bpost\<rparr>"
  let ?s12 = "s\<lparr>A := pre @ us' @ vs' @ post, B := bpre @ c1 @ c2 @ bpost\<rparr>"
  have r1: "(if created leftArg then parallel_mergesort cutoff created leftArg s else Some s)
              = Some ?s1"
    using child_decomp [of s pre us "vs @ post" bpre b1 "b2 @ bpost" leftArg created cutoff]
      Aeq Beq lens assms(1,6) m
    by (simp add: us'_def c1_def buildArgs_def)
  have r2: "(if created rightArg then parallel_mergesort cutoff created rightArg s else Some s)
              = Some ?s2"
    using child_decomp [of s "pre @ us" vs post "bpre @ b1" b2 bpost rightArg created cutoff]
      Aeq Beq lens assms(1,7) m
    by (simp add: vs'_def c2_def buildArgs_def)
  have r12: "(if created rightArg then parallel_mergesort cutoff created rightArg ?s1
              else Some ?s1) = Some ?s12"
    using child_decomp
            [of ?s1 "pre @ us'" vs post "bpre @ c1" b2 bpost rightArg created cutoff]
      lens lenc assms(1,7) m
    by (simp add: vs'_def c2_def buildArgs_def)
  have r21: "(if created leftArg then parallel_mergesort cutoff created leftArg ?s2
              else Some ?s2) = Some ?s12"
    using child_decomp
            [of ?s2 pre us "vs' @ post" bpre b1 "c2 @ bpost" leftArg created cutoff]
      lens lenc assms(1,6) m
    by (simp add: us'_def c1_def buildArgs_def)
  from r1 r2 r12 r21 show ?thesis by blast
qed

section \<open>The two sorts on every input\<close>

lemma my_mergesort_Some:
  assumes "my_mergesort l r s = Some s'"
  shows "length (A s') = length (A s) \<and> length (B s') = length (B s)
         \<and> (l < r \<longrightarrow> 0 \<le> l \<and> r < int (length (A s)) \<and> r < int (length (B s)))"
  using assms
proof (induction l r s arbitrary: s' rule: my_mergesort.induct)
  case (1 l r s)
  show ?case
  proof (cases "l \<ge> r")
    case True
    with "1.prems" show ?thesis by (subst (asm) my_mergesort.simps) simp
  next
    case False
    from "1.prems" False obtain mid s1 s2 where
      mp: "midpoint l r = Some mid"
      and c1: "my_mergesort l mid s = Some s1"
      and c2: "my_mergesort (mid + 1) r s1 = Some s2"
      and m: "merge l mid (mid + 1) r s2 = Some s'"
      by (subst (asm) my_mergesort.simps) (auto split: option.splits)
    note len1 = "1.IH"(1) [OF False mp c1]
    note len2 = "1.IH"(2) [OF False mp c1 c2]
    note mb = merge_Some_A [OF m]
    show ?thesis using len1 len2 mb by simp
  qed
qed

lemma parallel_mergesort_Some:
  assumes "parallel_mergesort cutoff created a s = Some s'"
  shows "length (A s') = length (A s) \<and> length (B s') = length (B s)
         \<and> (left a < right a \<longrightarrow>
               0 \<le> left a \<and> right a < int (length (A s)) \<and> right a < int (length (B s)))"
  using assms
proof (induction cutoff created a s arbitrary: s' rule: parallel_mergesort.induct)
  case (1 cutoff created a s)
  define l where "l = left a"
  define r where "r = right a"
  define lev where "lev = level a"
  show ?case
  proof (cases "l \<ge> r")
    case True
    with "1.prems" show ?thesis
      by (subst (asm) parallel_mergesort.simps) (simp add: l_def r_def)
  next
    case False
    show ?thesis
    proof (cases "lev \<ge> cutoff")
      case True
      with "1.prems" False have "my_mergesort l r s = Some s'"
        by (subst (asm) parallel_mergesort.simps) (simp add: l_def r_def lev_def)
      from my_mergesort_Some [OF this] show ?thesis by (simp add: l_def r_def)
    next
      case deeper: False
      from "1.prems" False deeper obtain mid where mp: "midpoint l r = Some mid"
        using parallel_mergesort_overflow [of a cutoff created s]
        by (cases "midpoint l r") (auto simp: l_def r_def lev_def)
      define leftArg where "leftArg = buildArgs l mid (lev + 1)"
      define rightArg where "rightArg = buildArgs (mid + 1) r (lev + 1)"
      have "parallel_mergesort cutoff created a s
              = (case (if created leftArg then parallel_mergesort cutoff created leftArg s
                       else Some s) of
                   None \<Rightarrow> None
                 | Some s1 \<Rightarrow>
                     (case (if created rightArg then parallel_mergesort cutoff created rightArg s1
                            else Some s1) of
                        None \<Rightarrow> None
                      | Some s2 \<Rightarrow> merge l mid (mid + 1) r s2))"
        unfolding leftArg_def rightArg_def l_def r_def lev_def
        by (rule parallel_mergesort_fan_out) (use False deeper mp in \<open>simp_all add: l_def r_def lev_def\<close>)
      with "1.prems" obtain s1 s2 where
        c1: "(if created leftArg then parallel_mergesort cutoff created leftArg s else Some s)
               = Some s1"
        and c2: "(if created rightArg then parallel_mergesort cutoff created rightArg s1
                  else Some s1) = Some s2"
        and m: "merge l mid (mid + 1) r s2 = Some s'"
        by (auto split: option.splits)
      have len1: "length (A s1) = length (A s) \<and> length (B s1) = length (B s)"
      proof (cases "created leftArg")
        case True
        with c1 have "parallel_mergesort cutoff created leftArg s = Some s1" by simp
        from "1.IH"(1) [OF l_def r_def lev_def False deeper mp leftArg_def rightArg_def True this]
        show ?thesis by simp
      next
        case False
        with c1 show ?thesis by simp
      qed
      have len2: "length (A s2) = length (A s1) \<and> length (B s2) = length (B s1)"
      proof (cases "created rightArg")
        case True
        with c2 have "parallel_mergesort cutoff created rightArg s1 = Some s2" by simp
        from "1.IH"(2) [OF l_def r_def lev_def False deeper mp leftArg_def rightArg_def c1 True this]
        show ?thesis by simp
      next
        case False
        with c2 show ?thesis by simp
      qed
      note mb = merge_Some_A [OF m]
      show ?thesis using len1 len2 mb by (simp add: l_def r_def)
    qed
  qed
qed

text \<open>
  What the two sorts compute, on every input. On a range of at most one element they
  return the state as it is. On a longer range that lies inside both arrays they return
  the state with the range rearranged, in \<open>A\<close> and in \<open>B\<close>: sorted by the serial sort, and
  as \<open>par_sort\<close> says by the parallel one. On every other range some access is outside an
  array, or the split point overflows, and the result is \<open>None\<close>.
\<close>

lemma parallel_mergesort_exact:
  "parallel_mergesort cutoff created a s =
     (if right a \<le> left a then Some s
      else if 0 \<le> left a \<and> right a < int (length (A s)) \<and> right a < int (length (B s))
      then Some (s\<lparr>A := take (nat (left a)) (A s)
                            @ par_sort cutoff created a (slice (A s) (left a) (right a))
                            @ drop (nat (right a + 1)) (A s),
                      B := take (nat (left a)) (B s)
                            @ par_sort cutoff created a (slice (A s) (left a) (right a))
                            @ drop (nat (right a + 1)) (B s)\<rparr>)
      else None)"
proof (cases "right a \<le> left a")
  case True
  then show ?thesis by (subst parallel_mergesort.simps) simp
next
  case False
  show ?thesis
  proof (cases "0 \<le> left a \<and> right a < int (length (A s)) \<and> right a < int (length (B s))")
    case True
    with False show ?thesis
      using parallel_mergesort_range [of a s cutoff created] by simp
  next
    case outside: False
    have "parallel_mergesort cutoff created a s = None"
    proof (cases "parallel_mergesort cutoff created a s")
      case None
      then show ?thesis .
    next
      case (Some s')
      from parallel_mergesort_Some [OF Some] False outside show ?thesis by simp
    qed
    with False outside show ?thesis by simp
  qed
qed

lemma my_mergesort_exact:
  "my_mergesort l r s =
     (if r \<le> l then Some s
      else if 0 \<le> l \<and> r < int (length (A s)) \<and> r < int (length (B s))
      then Some (s\<lparr>A := take (nat l) (A s) @ sort (slice (A s) l r) @ drop (nat (r + 1)) (A s),
                      B := take (nat l) (B s) @ sort (slice (A s) l r)
                            @ drop (nat (r + 1)) (B s)\<rparr>)
      else None)"
proof (cases "r \<le> l")
  case True
  then show ?thesis by (subst my_mergesort.simps) simp
next
  case False
  show ?thesis
  proof (cases "0 \<le> l \<and> r < int (length (A s)) \<and> r < int (length (B s))")
    case True
    with False show ?thesis
      using my_mergesort_range [of l r s] by simp
  next
    case outside: False
    have "my_mergesort l r s = None"
    proof (cases "my_mergesort l r s")
      case None
      then show ?thesis .
    next
      case (Some s')
      from my_mergesort_Some [OF Some] False outside show ?thesis by simp
    qed
    with False outside show ?thesis by simp
  qed
qed

text \<open>
  When every thread is created, the parallel sort does what the serial sort does, on
  every descriptor and state.
\<close>

lemma parallel_mergesort_serial:
  assumes "\<forall>b. created b"
  shows "parallel_mergesort cutoff created a s = my_mergesort (left a) (right a) s"
proof (cases "\<not> right a \<le> left a
              \<and> 0 \<le> left a \<and> right a < int (length (A s)) \<and> right a < int (length (B s))")
  case True
  then have "length (slice (A s) (left a) (right a)) = nat (right a + 1 - left a)"
    by (simp add: length_slice)
  with assms True
  have "par_sort cutoff created a (slice (A s) (left a) (right a))
          = sort (slice (A s) (left a) (right a))"
    by (intro par_sort_created) simp_all
  then show ?thesis
    by (simp only: parallel_mergesort_exact my_mergesort_exact)
next
  case False
  then show ?thesis
    unfolding parallel_mergesort_exact my_mergesort_exact by auto
qed

lemma parallel_mergesort_Some_A:
  assumes "parallel_mergesort cutoff created a s = Some s'" and "left a < right a"
  shows "A s' = take (nat (left a)) (A s)
                  @ par_sort cutoff created a (slice (A s) (left a) (right a))
                  @ drop (nat (right a + 1)) (A s)"
proof -
  from parallel_mergesort_Some [OF assms(1)] assms(2)
  have inside: "0 \<le> left a" "left a \<le> right a + 1"
    "right a < int (length (A s))" "right a < int (length (B s))"
    by simp_all
  from parallel_mergesort_range [OF inside, of cutoff created] assms(1) show ?thesis by auto
qed

lemma parallel_mergesort_root_Some:
  assumes "parallel_mergesort cutoff created
             \<lparr>left = 0, right = int (length (A s)) - 1, level = 0\<rparr> s = Some s'"
  shows "A s' = par_sort cutoff created \<lparr>left = 0, right = int (length (A s)) - 1, level = 0\<rparr> (A s)"
proof (cases "length (A s) \<le> 1")
  case True
  then have "parallel_mergesort cutoff created
               \<lparr>left = 0, right = int (length (A s)) - 1, level = 0\<rparr> s = Some s"
    by (subst parallel_mergesort.simps) simp
  with assms have "s' = s" by simp
  with True show ?thesis by (simp add: par_sort_trivial)
next
  case False
  then have "left \<lparr>left = 0, right = int (length (A s)) - 1, level = 0\<rparr>
               < right \<lparr>left = 0, right = int (length (A s)) - 1, level = 0\<rparr>"
    by simp
  from parallel_mergesort_Some_A [OF assms this] show ?thesis
    by (simp add: slice_whole)
qed

lemma parallel_mergesort_root_sorts:
  assumes "\<forall>b. created b"
    and "parallel_mergesort cutoff created
           \<lparr>left = 0, right = int (length (A s)) - 1, level = 0\<rparr> s = Some s'"
  shows "A s' = sort (A s)"
proof -
  have "par_sort cutoff created \<lparr>left = 0, right = int (length (A s)) - 1, level = 0\<rparr> (A s)
          = sort (A s)"
    using assms(1) by (intro par_sort_created) simp_all
  with parallel_mergesort_root_Some [OF assms(2)] show ?thesis by simp
qed

text \<open>
  A call on a range of two or more elements inside both arrays touches nothing outside
  the range, and what it leaves in the range depends only on what \<open>A\<close> held there: two
  states that agree on \<open>A[left..right]\<close> end with the same \<open>A[left..right]\<close> and the same
  \<open>B[left..right]\<close>.
\<close>

lemma parallel_mergesort_local:
  assumes "parallel_mergesort cutoff created a s = Some s'" and "left a < right a"
  shows "take (nat (left a)) (A s') = take (nat (left a)) (A s)"
    and "drop (nat (right a + 1)) (A s') = drop (nat (right a + 1)) (A s)"
    and "take (nat (left a)) (B s') = take (nat (left a)) (B s)"
    and "drop (nat (right a + 1)) (B s') = drop (nat (right a + 1)) (B s)"
    and "slice (A s') (left a) (right a)
           = par_sort cutoff created a (slice (A s) (left a) (right a))"
    and "slice (B s') (left a) (right a)
           = par_sort cutoff created a (slice (A s) (left a) (right a))"
proof -
  from parallel_mergesort_Some [OF assms(1)] assms(2)
  have inside: "0 \<le> left a" "left a \<le> right a + 1"
    "right a < int (length (A s))" "right a < int (length (B s))"
    by simp_all
  define mid where "mid = par_sort cutoff created a (slice (A s) (left a) (right a))"
  have lm: "length mid = nat (right a + 1 - left a)"
    using inside by (simp add: mid_def length_slice length_par_sort)
  have lp: "length (take (nat (left a)) (A s)) = nat (left a)"
    "length (take (nat (left a)) (B s)) = nat (left a)"
    using inside assms(2) by (simp; linarith)+
  from parallel_mergesort_range [OF inside, of cutoff created] assms
  have A': "A s' = take (nat (left a)) (A s) @ mid @ drop (nat (right a + 1)) (A s)"
    and B': "B s' = take (nat (left a)) (B s) @ mid @ drop (nat (right a + 1)) (B s)"
    by (auto simp: mid_def)
  have lf: "nat (right a + 1) = length (take (nat (left a)) (A s) @ mid)"
    "nat (right a + 1) = length (take (nat (left a)) (B s) @ mid)"
    using lm lp inside by (simp; linarith)+
  show "take (nat (left a)) (A s') = take (nat (left a)) (A s)"
    using A' lp(1) by simp
  show "take (nat (left a)) (B s') = take (nat (left a)) (B s)"
    using B' lp(2) by simp
  show "drop (nat (right a + 1)) (A s') = drop (nat (right a + 1)) (A s)"
    unfolding A' lf(1) by (metis append.assoc append_eq_conv_conj)
  show "drop (nat (right a + 1)) (B s') = drop (nat (right a + 1)) (B s)"
    unfolding B' lf(2) by (metis append.assoc append_eq_conv_conj)
  show "slice (A s') (left a) (right a)
          = par_sort cutoff created a (slice (A s) (left a) (right a))"
    unfolding A' mid_def [symmetric] by (rule slice_parts [OF lp(1) lm])
  show "slice (B s') (left a) (right a)
          = par_sort cutoff created a (slice (A s) (left a) (right a))"
    unfolding B' mid_def [symmetric] by (rule slice_parts [OF lp(2) lm])
qed

section \<open>When every thread is created\<close>

text \<open>
  With a scratch buffer at least as long as the dataset, and every thread created, the
  sort of the root descriptor returns; and whenever it returns with every thread
  created, the dataset is sorted: every adjacent pair is in order and the driver's
  \<open>is_sorted\<close> answers true.
\<close>

lemma parallel_mergesort_sorted_if_created:
  assumes "\<forall>b. created b" and "length (A s) = N"
  shows "(N \<le> length (B s) \<longrightarrow>
            (\<exists>s'. parallel_mergesort cutoff created \<lparr>left = 0, right = int N - 1, level = 0\<rparr> s
                     = Some s'))
       \<and> (\<forall>s'. parallel_mergesort cutoff created \<lparr>left = 0, right = int N - 1, level = 0\<rparr> s
                   = Some s' \<longrightarrow>
            A s' = sort (A s)
            \<and> (\<forall>i. 0 \<le> i \<and> i + 1 \<le> int N - 1 \<longrightarrow> A s' ! nat i \<le> A s' ! nat (i + 1))
            \<and> is_sorted (int N) s' = Some True)"
proof (rule conjI)
  show "N \<le> length (B s) \<longrightarrow>
          (\<exists>s'. parallel_mergesort cutoff created \<lparr>left = 0, right = int N - 1, level = 0\<rparr> s
                   = Some s')"
    using parallel_mergesort_whole [of s cutoff created] assms(2) by simp
next
  show "\<forall>s'. parallel_mergesort cutoff created \<lparr>left = 0, right = int N - 1, level = 0\<rparr> s
                   = Some s' \<longrightarrow>
            A s' = sort (A s)
            \<and> (\<forall>i. 0 \<le> i \<and> i + 1 \<le> int N - 1 \<longrightarrow> A s' ! nat i \<le> A s' ! nat (i + 1))
            \<and> is_sorted (int N) s' = Some True"
  proof (rule allI, rule impI)
    fix s'
    assume "parallel_mergesort cutoff created \<lparr>left = 0, right = int N - 1, level = 0\<rparr> s
              = Some s'"
    then have "parallel_mergesort cutoff created
                 \<lparr>left = 0, right = int (length (A s)) - 1, level = 0\<rparr> s = Some s'"
      using assms(2) by simp
    with assms(1) have A': "A s' = sort (A s)"
      by (rule parallel_mergesort_root_sorts)
    then have len: "length (A s') = N" and srt: "sorted (A s')" using assms by simp_all
    have adj: "\<forall>i. 0 \<le> i \<and> i + 1 \<le> int N - 1 \<longrightarrow> A s' ! nat i \<le> A s' ! nat (i + 1)"
      using sorted_adjacent [OF srt] len by simp
    have "is_sorted (int N) s' = Some True"
      using is_sorted_sorted [of s'] len srt by simp
    with A' adj show "A s' = sort (A s)
            \<and> (\<forall>i. 0 \<le> i \<and> i + 1 \<le> int N - 1 \<longrightarrow> A s' ! nat i \<le> A s' ! nat (i + 1))
            \<and> is_sorted (int N) s' = Some True"
      by blast
  qed
qed

section \<open>The model on the driver's inputs\<close>

text \<open>
  The definitions compute. On the two-element test of the driver (\<open>[10, 5]\<close> with cutoff
  \<open>1\<close>) and on a five-element dataset, serially and with two levels of threads that are
  all created, the model yields the sorted arrays; with a scratch buffer that is too
  short it yields \<open>None\<close>.
\<close>

lemmas run_simps =
  parallel_mergesort.simps my_mergesort.simps merge_def merge_traced_def merge_loop1.simps
  merge_loop2.simps merge_loop3.simps memcpy_A_B_def in_bounds_def buildArgs_def midpoint_def
  c_int_def sdiv_2_nonneg Let_def

lemma run_two_elements:
  "parallel_mergesort 1 (\<lambda>d. True) \<lparr>left = 0, right = 1, level = 0\<rparr> \<lparr>A = [10, 5], B = [0, 0]\<rparr>
     = Some \<lparr>A = [5, 10], B = [5, 10]\<rparr>"
  by (simp add: run_simps)

lemma run_serial:
  "parallel_mergesort 0 (\<lambda>d. True) \<lparr>left = 0, right = 4, level = 0\<rparr>
       \<lparr>A = [5, 3, 1, 4, 2], B = [0, 0, 0, 0, 0]\<rparr>
     = Some \<lparr>A = [1, 2, 3, 4, 5], B = [1, 2, 3, 4, 5]\<rparr>"
  by (simp add: run_simps)

lemma run_two_levels:
  "parallel_mergesort 2 (\<lambda>d. True) \<lparr>left = 0, right = 4, level = 0\<rparr>
       \<lparr>A = [5, 3, 1, 4, 2], B = [0, 0, 0, 0, 0]\<rparr>
     = Some \<lparr>A = [1, 2, 3, 4, 5], B = [1, 2, 3, 4, 5]\<rparr>"
  by (simp add: run_simps)

lemma run_short_scratch:
  "parallel_mergesort 2 (\<lambda>d. True) \<lparr>left = 0, right = 4, level = 0\<rparr>
       \<lparr>A = [5, 3, 1, 4, 2], B = [0, 0, 0, 0]\<rparr>
     = None"
  by (simp add: run_simps)

lemma run_merge_traced:
  "merge_traced 0 1 2 3 \<lparr>A = [2, 3, 1, 3], B = [0, 0, 0, 0]\<rparr>
     = Some ([(0, 2), (1, 0), (2, 1), (3, 3)], \<lparr>A = [1, 2, 3, 3], B = [1, 2, 3, 3]\<rparr>)"
  by (simp add: run_simps)

section \<open>The claims\<close>

text \<open>
  Claim C1 (sortedness) says that after \<open>parallel_mergesort\<close> returns on the root
  descriptor of a dataset, every adjacent pair of the dataset is in order, for every
  cutoff. The code breaks it when a thread cannot be created. Take the dataset
  \<open>[3, 2, 1]\<close>, cutoff \<open>1\<close> and a system that fails to create the thread for the left
  half \<open>{left = 0, right = 1, level = 1}\<close> and creates every other thread. The code drops
  the result of \<open>pthread_create\<close>, so \<open>A[0..1]\<close> stays \<open>[3, 2]\<close>; the call still merges
  \<open>[3, 2]\<close> with \<open>[1]\<close> and returns with \<open>A = [1, 3, 2]\<close>: \<open>A[1] > A[2]\<close>, and the driver's
  \<open>is_sorted(3)\<close> answers false. On the same input with every thread created the call
  returns \<open>[1, 2, 3]\<close> (and lemma \<open>parallel_mergesort_sorted_if_created\<close> shows sortedness
  for every dataset then).
\<close>

theorem parallel_mergesort_unsorted_after_failed_creation:
  "parallel_mergesort 1 (\<lambda>d. d \<noteq> \<lparr>left = 0, right = 1, level = 1\<rparr>)
       \<lparr>left = 0, right = 2, level = 0\<rparr> \<lparr>A = [3, 2, 1], B = [0, 0, 0]\<rparr>
     = Some \<lparr>A = [1, 3, 2], B = [1, 3, 2]\<rparr>
   \<and> A \<lparr>A = [1, 3, 2], B = [1, 3, 2]\<rparr> ! 1 > A \<lparr>A = [1, 3, 2], B = [1, 3, 2]\<rparr> ! 2
   \<and> is_sorted 3 \<lparr>A = [1, 3, 2], B = [1, 3, 2]\<rparr> = Some False
   \<and> parallel_mergesort 1 (\<lambda>d. True)
       \<lparr>left = 0, right = 2, level = 0\<rparr> \<lparr>A = [3, 2, 1], B = [0, 0, 0]\<rparr>
     = Some \<lparr>A = [1, 2, 3], B = [1, 2, 3]\<rparr>"
  by (simp add: run_simps is_sorted_def is_sorted_loop.simps)

text \<open>
  Claim C2 (permutation). For every dataset \<open>A\<close> and every cutoff \<open>\<ge> 0\<close>, whichever threads
  the system creates: with a scratch buffer at least as long as the dataset the sort
  returns, and whenever it returns the resulting contents of \<open>A\<close> are a permutation of
  the contents before the call: the two have the same multiset of elements (every value
  occurs equally often) and the same length.
\<close>

theorem parallel_mergesort_permutation:
  assumes "0 \<le> cutoff"
  shows "(length (A s) \<le> length (B s) \<longrightarrow>
            (\<exists>s'. parallel_mergesort cutoff created
                     \<lparr>left = 0, right = int (length (A s)) - 1, level = 0\<rparr> s = Some s'))
       \<and> (\<forall>s'. parallel_mergesort cutoff created
                   \<lparr>left = 0, right = int (length (A s)) - 1, level = 0\<rparr> s = Some s' \<longrightarrow>
            mset (A s') = mset (A s) \<and> length (A s') = length (A s))"
proof (rule conjI)
  show "length (A s) \<le> length (B s) \<longrightarrow>
          (\<exists>s'. parallel_mergesort cutoff created
                   \<lparr>left = 0, right = int (length (A s)) - 1, level = 0\<rparr> s = Some s')"
    using parallel_mergesort_whole [of s cutoff created] by simp
next
  show "\<forall>s'. parallel_mergesort cutoff created
                   \<lparr>left = 0, right = int (length (A s)) - 1, level = 0\<rparr> s = Some s' \<longrightarrow>
            mset (A s') = mset (A s) \<and> length (A s') = length (A s)"
  proof (rule allI, rule impI)
    fix s'
    assume "parallel_mergesort cutoff created
              \<lparr>left = 0, right = int (length (A s)) - 1, level = 0\<rparr> s = Some s'"
    then have "A s' = par_sort cutoff created
                        \<lparr>left = 0, right = int (length (A s)) - 1, level = 0\<rparr> (A s)"
      by (rule parallel_mergesort_root_Some)
    then show "mset (A s') = mset (A s) \<and> length (A s') = length (A s)"
      by (simp add: mset_par_sort length_par_sort)
  qed
qed

theorem parallel_mergesort_permutation_witness:
  "(0::int) \<le> 2
   \<and> length (A \<lparr>A = [5, 3, 1, 3, 2], B = [0, 0, 0, 0, 0]\<rparr>)
       \<le> length (B \<lparr>A = [5, 3, 1, 3, 2], B = [0, 0, 0, 0, 0]\<rparr>)
   \<and> (\<exists>s'. parallel_mergesort 2 (\<lambda>d. True) \<lparr>left = 0, right = 4, level = 0\<rparr>
               \<lparr>A = [5, 3, 1, 3, 2], B = [0, 0, 0, 0, 0]\<rparr> = Some s'
           \<and> mset (A s') = mset [5, 3, 1, 3, 2]
           \<and> length (A s') = 5)
   \<and> (\<exists>s'. parallel_mergesort 2 (\<lambda>d. left d \<noteq> 0) \<lparr>left = 0, right = 4, level = 0\<rparr>
               \<lparr>A = [5, 3, 1, 3, 2], B = [0, 0, 0, 0, 0]\<rparr> = Some s'
           \<and> mset (A s') = mset [5, 3, 1, 3, 2]
           \<and> length (A s') = 5)"
proof -
  let ?s = "\<lparr>A = [5, 3, 1, 3, 2], B = [0, 0, 0, 0, 0]\<rparr>"
  have cut: "(0::int) \<le> 2" and fits: "length (A ?s) \<le> length (B ?s)" by simp_all
  have part: "\<exists>s'. parallel_mergesort 2 created \<lparr>left = 0, right = 4, level = 0\<rparr> ?s = Some s'
           \<and> mset (A s') = mset [5, 3, 1, 3, 2] \<and> length (A s') = 5" for created
  proof -
    note inst = parallel_mergesort_permutation [OF cut, of ?s created]
    from inst fits obtain s' where
      run: "parallel_mergesort 2 created \<lparr>left = 0, right = 4, level = 0\<rparr> ?s = Some s'"
      by auto
    with inst have "mset (A s') = mset [5, 3, 1, 3, 2]" and "length (A s') = 5"
      by simp_all
    with run show ?thesis by blast
  qed
  from cut fits part [of "\<lambda>d. True"] part [of "\<lambda>d. left d \<noteq> 0"] show ?thesis
    by blast
qed

text \<open>
  Claim C3 (merge sorts and is stable). Take a call \<open>merge(leftstart, leftend, rightstart,
  rightend)\<close> with \<open>rightstart = leftend + 1\<close> on a dataset whose ranges
  \<open>A[leftstart..leftend]\<close> and \<open>A[rightstart..rightend]\<close> are each sorted ascending. When
  the two ranges are index ranges of both arrays the call returns. Whenever the call
  returns, \<open>A[leftstart..rightend]\<close> is sorted ascending afterwards, and the merge is
  stable. Stability is read off the assignments \<open>B[k] = A[i]\<close> that the loops of \<open>merge\<close>
  make, which \<open>merge_traced\<close> returns in the order they were made: the positions \<open>k\<close> are
  \<open>leftstart\<close>, \<open>leftstart + 1\<close>, ...; what is written to a position \<open>k\<close> of the range is what
  \<open>A[k]\<close> holds after the call; the assignments that read the left range read its indices
  in increasing order, each once, and so do those that read the right range; and
  whenever an element of the left range equals an element of the right range, the left
  one is written to the smaller position.
\<close>

theorem merge_sorted_stable:
  assumes "rightstart = leftend + 1"
    and "sorted (slice (A s) leftstart leftend)"
    and "sorted (slice (A s) rightstart rightend)"
  shows "(merge_ranges_ok leftstart leftend rightstart rightend s \<longrightarrow>
            (\<exists>mvs s'. merge_traced leftstart leftend rightstart rightend s = Some (mvs, s')))
       \<and> (\<forall>mvs s'. merge_traced leftstart leftend rightstart rightend s = Some (mvs, s') \<longrightarrow>
            merge leftstart leftend rightstart rightend s = Some s'
            \<and> sorted (slice (A s') leftstart rightend)
            \<and> map fst mvs = [leftstart..leftstart + int (length mvs) - 1]
            \<and> (\<forall>k i. (k, i) \<in> set mvs \<and> k \<le> rightend \<longrightarrow> A s' ! nat k = A s ! nat i)
            \<and> filter (\<lambda>i. i \<le> leftend) (map snd mvs) = [leftstart..leftend]
            \<and> filter (\<lambda>i. leftend < i) (map snd mvs) = [rightstart..rightend]
            \<and> (\<forall>k i k' i'. (k, i) \<in> set mvs \<and> (k', i') \<in> set mvs
                   \<and> i \<le> leftend \<and> leftend < i' \<and> A s ! nat i = A s ! nat i' \<longrightarrow> k < k'))"
proof (rule conjI)
  show "merge_ranges_ok leftstart leftend rightstart rightend s \<longrightarrow>
            (\<exists>mvs s'. merge_traced leftstart leftend rightstart rightend s = Some (mvs, s'))"
    using merge_range [of leftstart leftend rightstart rightend s]
    by (auto simp: merge_traced_merge)
next
  show "\<forall>mvs s'. merge_traced leftstart leftend rightstart rightend s = Some (mvs, s') \<longrightarrow>
            merge leftstart leftend rightstart rightend s = Some s'
            \<and> sorted (slice (A s') leftstart rightend)
            \<and> map fst mvs = [leftstart..leftstart + int (length mvs) - 1]
            \<and> (\<forall>k i. (k, i) \<in> set mvs \<and> k \<le> rightend \<longrightarrow> A s' ! nat k = A s ! nat i)
            \<and> filter (\<lambda>i. i \<le> leftend) (map snd mvs) = [leftstart..leftend]
            \<and> filter (\<lambda>i. leftend < i) (map snd mvs) = [rightstart..rightend]
            \<and> (\<forall>k i k' i'. (k, i) \<in> set mvs \<and> (k', i') \<in> set mvs
                   \<and> i \<le> leftend \<and> leftend < i' \<and> A s ! nat i = A s ! nat i' \<longrightarrow> k < k')"
  proof (intro allI impI)
    fix mvs s'
    assume traced: "merge_traced leftstart leftend rightstart rightend s = Some (mvs, s')"
    then have run: "merge leftstart leftend rightstart rightend s = Some s'"
      by (auto simp: merge_traced_merge)
    define src where "src = merge_sources (A s) leftend rightend leftstart rightstart"
    define vals where "vals = map (\<lambda>p. A s ! nat p) src"
    define n where "n = nat (rightend + 1 - leftstart)"
    have mvs: "mvs = moves_from leftstart src"
      unfolding src_def using traced by (rule merge_traced_moves)
    note bnd = merge_Some_A [OF run]
    note win = merge_Some_window [OF run assms(1), folded src_def vals_def n_def]
    have "sorted vals"
      unfolding win(2) using assms(2,3) by (simp add: sorted_merged)
    then have sorted_window: "sorted (slice (A s') leftstart rightend)"
      unfolding win(1) by (rule sorted_wrt_take)
    have lenw: "length (slice (A s') leftstart rightend) = n"
      using bnd by (simp add: length_slice n_def)
    then have n_le: "n \<le> length src"
      unfolding win(1) by (simp add: vals_def)
    have place: "A s' ! nat (leftstart + int p) = A s ! nat (src ! p)"
      if "leftstart + int p \<le> rightend" for p
    proof -
      have pn: "p < n" using that by (simp add: n_def; linarith)
      have "A s' ! nat (leftstart + int p)
              = slice (A s') leftstart rightend ! nat (leftstart + int p - leftstart)"
        by (rule nth_slice [symmetric]) (use that bnd in simp_all)
      also have "\<dots> = take n vals ! p" by (simp add: win(1))
      also have "\<dots> = vals ! p" using pn by simp
      also have "\<dots> = A s ! nat (src ! p)" using pn n_le by (simp add: vals_def)
      finally show ?thesis .
    qed
    have placed: "\<forall>k i. (k, i) \<in> set mvs \<and> k \<le> rightend \<longrightarrow> A s' ! nat k = A s ! nat i"
      unfolding mvs using place by (auto simp: in_set_moves_from)
    have lt: "leftend < rightstart" using assms(1) by simp
    have fl: "filter (\<lambda>x. x \<le> leftend) src = [leftstart..leftend]"
      unfolding src_def using lt by (rule filter_left_merge_sources)
    have fr: "filter (\<lambda>x. leftend < x) src = [rightstart..rightend]"
      unfolding src_def using lt by (rule filter_right_merge_sources)
    have left_sorted: "\<forall>x y. leftstart \<le> x \<and> x \<le> y \<and> y \<le> leftend
                         \<longrightarrow> A s ! nat x \<le> A s ! nat y"
    proof (intro allI impI)
      fix x y
      assume xy: "leftstart \<le> x \<and> x \<le> y \<and> y \<le> leftend"
      then have "leftend < int (length (A s))" using win(3) by simp
      with assms(2) bnd(1) xy show "A s ! nat x \<le> A s ! nat y"
        by (intro sorted_slice_nth [of "A s" leftstart leftend]) simp_all
    qed
    have stable: "p < q"
      if "p < length src \<and> q < length src \<and> src ! p \<le> leftend \<and> leftend < src ! q
          \<and> A s ! nat (src ! p) = A s ! nat (src ! q)" for p q
    proof (rule ccontr)
      assume "\<not> p < q"
      moreover have "p \<noteq> q" using that by auto
      ultimately have "q < p" by simp
      then have "A s ! nat (src ! q) < A s ! nat (src ! p)"
        unfolding src_def
        by (rule merge_sources_stable [OF left_sorted lt]) (use that in \<open>simp_all add: src_def\<close>)
      with that show False by simp
    qed
    have ties: "\<forall>k i k' i'. (k, i) \<in> set mvs \<and> (k', i') \<in> set mvs
                   \<and> i \<le> leftend \<and> leftend < i' \<and> A s ! nat i = A s ! nat i' \<longrightarrow> k < k'"
      unfolding mvs using stable by (auto simp: in_set_moves_from)
    show "merge leftstart leftend rightstart rightend s = Some s'
            \<and> sorted (slice (A s') leftstart rightend)
            \<and> map fst mvs = [leftstart..leftstart + int (length mvs) - 1]
            \<and> (\<forall>k i. (k, i) \<in> set mvs \<and> k \<le> rightend \<longrightarrow> A s' ! nat k = A s ! nat i)
            \<and> filter (\<lambda>i. i \<le> leftend) (map snd mvs) = [leftstart..leftend]
            \<and> filter (\<lambda>i. leftend < i) (map snd mvs) = [rightstart..rightend]
            \<and> (\<forall>k i k' i'. (k, i) \<in> set mvs \<and> (k', i') \<in> set mvs
                   \<and> i \<le> leftend \<and> leftend < i' \<and> A s ! nat i = A s ! nat i' \<longrightarrow> k < k')"
      using run sorted_window placed ties fl fr
      by (simp add: mvs map_fst_moves_from map_snd_moves_from length_moves_from)
  qed
qed

theorem merge_sorted_stable_witness:
  "(2::int) = 1 + 1
   \<and> sorted (slice (A \<lparr>A = [2, 3, 1, 3], B = [0, 0, 0, 0]\<rparr>) 0 1)
   \<and> sorted (slice (A \<lparr>A = [2, 3, 1, 3], B = [0, 0, 0, 0]\<rparr>) 2 3)
   \<and> merge_ranges_ok 0 1 2 3 \<lparr>A = [2, 3, 1, 3], B = [0, 0, 0, 0]\<rparr>
   \<and> (\<exists>s'. merge_traced 0 1 2 3 \<lparr>A = [2, 3, 1, 3], B = [0, 0, 0, 0]\<rparr>
              = Some ([(0, 2), (1, 0), (2, 1), (3, 3)], s')
         \<and> merge 0 1 2 3 \<lparr>A = [2, 3, 1, 3], B = [0, 0, 0, 0]\<rparr> = Some s'
         \<and> sorted (slice (A s') 0 3)
         \<and> A s' ! 0 = 1 \<and> A s' ! 1 = 2 \<and> A s' ! 2 = 3 \<and> A s' ! 3 = 3
         \<and> A \<lparr>A = [2, 3, 1, 3], B = [0, 0, 0, 0]\<rparr> ! 1 = A \<lparr>A = [2, 3, 1, 3], B = [0, 0, 0, 0]\<rparr> ! 3
         \<and> (2::int) < 3)"
proof -
  let ?s = "\<lparr>A = [2, 3, 1, 3], B = [0, 0, 0, 0]\<rparr>"
  let ?mvs = "[(0, 2), (1, 0), (2, 1), (3, 3)] :: move list"
  have adj: "(2::int) = 1 + 1" by simp
  have sl: "sorted (slice (A ?s) 0 1)" and sr: "sorted (slice (A ?s) 2 3)"
    by (simp_all add: slice_def)
  have ok: "merge_ranges_ok 0 1 2 3 ?s" by (simp add: merge_ranges_ok_def)
  have traced: "merge_traced 0 1 2 3 ?s = Some (?mvs, \<lparr>A = [1, 2, 3, 3], B = [1, 2, 3, 3]\<rparr>)"
    by (rule run_merge_traced)
  note inst = merge_sorted_stable [OF adj sl sr]
  from inst traced have run: "merge 0 1 2 3 ?s = Some \<lparr>A = [1, 2, 3, 3], B = [1, 2, 3, 3]\<rparr>"
    and srt: "sorted (slice (A \<lparr>A = [1, 2, 3, 3], B = [1, 2, 3, 3]\<rparr>) 0 3)"
    and tie: "\<forall>k i k' i'. (k, i) \<in> set ?mvs \<and> (k', i') \<in> set ?mvs
                   \<and> i \<le> 1 \<and> 1 < i' \<and> A ?s ! nat i = A ?s ! nat i' \<longrightarrow> k < k'"
    by blast+
  from tie [rule_format, of 2 1 3 3] have "(2::int) < 3" by simp
  with adj sl sr ok traced run srt show ?thesis by simp
qed

text \<open>
  Claim C4 (cutoff invariance) says that the sort leaves the same dataset for any two
  cutoffs in \<open>{0, 1, 2, 3, 4}\<close>, cutoff \<open>0\<close> being the serial \<open>my_mergesort\<close>. The code
  breaks it when threads cannot be created, by the defect of claim C1: the result of
  \<open>pthread_create\<close> is dropped. Take the dataset \<open>[3, 1, 2]\<close> and a system that creates no
  thread. With cutoff \<open>0\<close> the call runs \<open>my_mergesort\<close>, which needs no thread, and
  returns \<open>[1, 2, 3]\<close>. With cutoff \<open>3\<close> the call fans out, neither half is sorted, and
  it merges \<open>[3, 1]\<close> with \<open>[2]\<close> and returns \<open>[2, 3, 1]\<close>. (When every thread is created
  the two agree on every input: lemma \<open>parallel_mergesort_serial\<close>.)
\<close>

theorem cutoff_changes_result_after_failed_creation:
  "parallel_mergesort 0 (\<lambda>d. False) \<lparr>left = 0, right = 2, level = 0\<rparr>
       \<lparr>A = [3, 1, 2], B = [0, 0, 0]\<rparr>
     = Some \<lparr>A = [1, 2, 3], B = [1, 2, 3]\<rparr>
   \<and> my_mergesort 0 2 \<lparr>A = [3, 1, 2], B = [0, 0, 0]\<rparr>
     = Some \<lparr>A = [1, 2, 3], B = [1, 2, 3]\<rparr>
   \<and> parallel_mergesort 3 (\<lambda>d. False) \<lparr>left = 0, right = 2, level = 0\<rparr>
       \<lparr>A = [3, 1, 2], B = [0, 0, 0]\<rparr>
     = Some \<lparr>A = [2, 3, 1], B = [2, 3, 1]\<rparr>
   \<and> A \<lparr>A = [2, 3, 1], B = [2, 3, 1]\<rparr> \<noteq> A \<lparr>A = [1, 2, 3], B = [1, 2, 3]\<rparr>"
  by (simp add: run_simps)

text \<open>
  Claim C5 (split point and termination), as amended. Take C \<open>int\<close>s \<open>left\<close> and \<open>right\<close>
  whose difference \<open>right - left\<close> is a C \<open>int\<close> as well when \<open>left < right\<close>; it always is
  when \<open>0 \<le> left\<close> (lemma \<open>c_int_diff\<close>). When \<open>left < right\<close>, the split point \<open>mid = left + (right - left) / 2\<close> is computed
  without overflow, equals the floor of the exact quotient and satisfies
  \<open>left \<le> mid < right\<close>, so the halves \<open>[left, mid]\<close> and \<open>[mid + 1, right]\<close> are both
  non-empty and both have fewer elements than \<open>[left, right]\<close>; \<open>my_mergesort\<close> calls
  itself on \<open>[left, mid]\<close>, then on \<open>[mid + 1, right]\<close>, then merges, and makes no other
  recursive call. When \<open>left \<ge> right\<close> the call returns the state unchanged and makes no
  recursive call. No infinite chain of recursive calls starts from the call
  (\<open>my_mergesort_dom\<close>), and every call below it is again on C \<open>int\<close>s with such a
  difference, so the recursion never meets an overflow.
\<close>

theorem my_mergesort_split_terminates:
  assumes "c_int l" and "c_int r" and "l < r \<longrightarrow> c_int (r - l)"
  shows "(l < r \<longrightarrow>
            (\<exists>mid. midpoint l r = Some mid
               \<and> mid = l + (r - l) div 2
               \<and> l \<le> mid \<and> mid + 1 \<le> r
               \<and> mid - l + 1 < r - l + 1 \<and> r - (mid + 1) + 1 < r - l + 1
               \<and> c_int ((r - l) sdiv 2) \<and> c_int mid \<and> c_int (mid + 1)
               \<and> my_mergesort l r s
                   = (case my_mergesort l mid s of
                        None \<Rightarrow> None
                      | Some s1 \<Rightarrow>
                          (case my_mergesort (mid + 1) r s1 of
                             None \<Rightarrow> None
                           | Some s2 \<Rightarrow> merge l mid (mid + 1) r s2))
               \<and> my_mergesort_rel (l, mid, s) (l, r, s)
               \<and> (\<forall>l' r' s'. my_mergesort_rel (l', r', s') (l, r, s) \<longrightarrow>
                      (l', r') = (l, mid) \<or> (l', r') = (mid + 1, r))))
       \<and> (l \<ge> r \<longrightarrow> my_mergesort l r s = Some s \<and> (\<forall>x. \<not> my_mergesort_rel x (l, r, s)))
       \<and> my_mergesort_dom (l, r, s)
       \<and> (\<forall>l' r' s'. my_mergesort_rel\<^sup>*\<^sup>* (l', r', s') (l, r, s) \<longrightarrow>
              c_int l' \<and> c_int r' \<and> (l' < r' \<longrightarrow> c_int (r' - l')))"
proof (intro conjI)
  show "l < r \<longrightarrow>
            (\<exists>mid. midpoint l r = Some mid
               \<and> mid = l + (r - l) div 2
               \<and> l \<le> mid \<and> mid + 1 \<le> r
               \<and> mid - l + 1 < r - l + 1 \<and> r - (mid + 1) + 1 < r - l + 1
               \<and> c_int ((r - l) sdiv 2) \<and> c_int mid \<and> c_int (mid + 1)
               \<and> my_mergesort l r s
                   = (case my_mergesort l mid s of
                        None \<Rightarrow> None
                      | Some s1 \<Rightarrow>
                          (case my_mergesort (mid + 1) r s1 of
                             None \<Rightarrow> None
                           | Some s2 \<Rightarrow> merge l mid (mid + 1) r s2))
               \<and> my_mergesort_rel (l, mid, s) (l, r, s)
               \<and> (\<forall>l' r' s'. my_mergesort_rel (l', r', s') (l, r, s) \<longrightarrow>
                      (l', r') = (l, mid) \<or> (l', r') = (mid + 1, r)))"
  proof (rule impI)
    assume lr: "l < r"
    define mid where "mid = l + (r - l) sdiv 2"
    have mp: "midpoint l r = Some mid"
      using assms(3) lr by (simp add: midpoint_def mid_def)
    note m = midpoint_bounds [OF mp lr]
    have quot: "(r - l) sdiv 2 = (r - l) div 2"
      using lr by (simp add: sdiv_2_nonneg)
    have range: "c_int ((r - l) sdiv 2)" "c_int mid" "c_int (mid + 1)"
      using assms(1,2) lr m unfolding c_int_def quot by linarith+
    have sizes: "mid - l + 1 < r - l + 1" "r - (mid + 1) + 1 < r - l + 1" "mid + 1 \<le> r"
      using m by simp_all
    have unfold: "my_mergesort l r s
                   = (case my_mergesort l mid s of
                        None \<Rightarrow> None
                      | Some s1 \<Rightarrow>
                          (case my_mergesort (mid + 1) r s1 of
                             None \<Rightarrow> None
                           | Some s2 \<Rightarrow> merge l mid (mid + 1) r s2))"
      using lr mp by (subst my_mergesort.simps) simp
    have call: "my_mergesort_rel (l, mid, s) (l, r, s)"
      using lr mp by (rule my_mergesort_rel_left)
    have only: "\<forall>l' r' s'. my_mergesort_rel (l', r', s') (l, r, s) \<longrightarrow>
                      (l', r') = (l, mid) \<or> (l', r') = (mid + 1, r)"
      using my_mergesort_rel_halves [of _ _ _ l r s] mp by fastforce
    from mp m(1,2) sizes range unfold call only
    show "\<exists>mid. midpoint l r = Some mid
               \<and> mid = l + (r - l) div 2
               \<and> l \<le> mid \<and> mid + 1 \<le> r
               \<and> mid - l + 1 < r - l + 1 \<and> r - (mid + 1) + 1 < r - l + 1
               \<and> c_int ((r - l) sdiv 2) \<and> c_int mid \<and> c_int (mid + 1)
               \<and> my_mergesort l r s
                   = (case my_mergesort l mid s of
                        None \<Rightarrow> None
                      | Some s1 \<Rightarrow>
                          (case my_mergesort (mid + 1) r s1 of
                             None \<Rightarrow> None
                           | Some s2 \<Rightarrow> merge l mid (mid + 1) r s2))
               \<and> my_mergesort_rel (l, mid, s) (l, r, s)
               \<and> (\<forall>l' r' s'. my_mergesort_rel (l', r', s') (l, r, s) \<longrightarrow>
                      (l', r') = (l, mid) \<or> (l', r') = (mid + 1, r))"
      by blast
  qed
next
  show "l \<ge> r \<longrightarrow> my_mergesort l r s = Some s \<and> (\<forall>x. \<not> my_mergesort_rel x (l, r, s))"
  proof (rule impI)
    assume base: "l \<ge> r"
    then have "my_mergesort l r s = Some s"
      by (subst my_mergesort.simps) simp
    moreover have "\<not> my_mergesort_rel x (l, r, s)" for x
      using base my_mergesort_rel_halves [of "fst x" "fst (snd x)" "snd (snd x)" l r s]
      by auto
    ultimately show "my_mergesort l r s = Some s \<and> (\<forall>x. \<not> my_mergesort_rel x (l, r, s))"
      by blast
  qed
next
  show "my_mergesort_dom (l, r, s)"
    by (rule my_mergesort_total)
next
  show "\<forall>l' r' s'. my_mergesort_rel\<^sup>*\<^sup>* (l', r', s') (l, r, s) \<longrightarrow>
              c_int l' \<and> c_int r' \<and> (l' < r' \<longrightarrow> c_int (r' - l'))"
  proof (intro allI impI)
    fix l' r' s'
    assume "my_mergesort_rel\<^sup>*\<^sup>* (l', r', s') (l, r, s)"
    from my_mergesort_rel_paths [OF this]
    have "(l', r') = (l, r) \<or> (l \<le> l' \<and> l' \<le> r' \<and> r' \<le> r)"
      by auto
    then show "c_int l' \<and> c_int r' \<and> (l' < r' \<longrightarrow> c_int (r' - l'))"
    proof
      assume "(l', r') = (l, r)"
      with assms show ?thesis by simp
    next
      assume inside: "l \<le> l' \<and> l' \<le> r' \<and> r' \<le> r"
      show ?thesis
      proof (cases "l < r")
        case True
        with assms(3) have "c_int (r - l)" by simp
        with inside assms(1,2) show ?thesis unfolding c_int_def by (intro conjI impI) linarith+
      next
        case False
        with inside have "l' = r'" by simp
        with inside assms(1,2) show ?thesis unfolding c_int_def by (intro conjI impI) linarith+
      qed
    qed
  qed
qed

theorem my_mergesort_split_terminates_witness:
  "c_int 2 \<and> c_int 7 \<and> c_int (7 - 2) \<and> (2::int) < 7
   \<and> midpoint 2 7 = Some 4
   \<and> my_mergesort_rel (2, 4, \<lparr>A = [4, 1], B = [0, 0]\<rparr>) (2, 7, \<lparr>A = [4, 1], B = [0, 0]\<rparr>)
   \<and> my_mergesort_dom (2, 7, \<lparr>A = [4, 1], B = [0, 0]\<rparr>)
   \<and> c_int 3 \<and> (7::int) \<ge> 3
   \<and> my_mergesort 7 3 \<lparr>A = [4, 1], B = [0, 0]\<rparr> = Some \<lparr>A = [4, 1], B = [0, 0]\<rparr>"
proof -
  let ?s = "\<lparr>A = [4, 1], B = [0, 0]\<rparr>"
  have c: "c_int 2" "c_int 7" "c_int (7 - 2)" "c_int 3"
    by (simp_all add: c_int_def)
  have lt: "(2::int) < 7" and ge: "(7::int) \<ge> 3" by simp_all
  have d1: "(2::int) < 7 \<longrightarrow> c_int (7 - 2)" using c(3) by simp
  have d2: "(7::int) < 3 \<longrightarrow> c_int (3 - 7)" by simp
  have mp: "midpoint 2 7 = Some 4"
    by (simp add: midpoint_def c_int_def sdiv_2_nonneg)
  note inst = my_mergesort_split_terminates [OF c(1,2) d1, of ?s]
  from inst lt mp have call: "my_mergesort_rel (2, 4, ?s) (2, 7, ?s)"
    by auto
  from inst have dom: "my_mergesort_dom (2, 7, ?s)"
    by blast
  from my_mergesort_split_terminates [OF c(2,4) d2, of ?s] ge
  have base: "my_mergesort 7 3 ?s = Some ?s"
    by simp
  from c lt mp call dom ge base show ?thesis by simp
qed

text \<open>
  Claim C5 as it was stated, for every \<open>left < right\<close>, fails on C \<open>int\<close>s whose
  difference is not one: for \<open>left = -2\<close> and \<open>right = INT_MAX = 2147483647\<close> the
  subtraction \<open>right - left\<close> overflows, so the code's split point is undefined, and so
  is the call of \<open>my_mergesort\<close>. On a machine that wraps, \<open>right - left\<close> comes out as
  \<open>2147483649 - 2\<^sup>3\<^sup>2 = -2147483647\<close> and the split point as \<open>-1073741825\<close>, which is below
  \<open>left\<close>: the half \<open>[left, mid]\<close> is empty and the half \<open>[mid + 1, right]\<close> is longer than
  \<open>[left, right]\<close>.
\<close>

theorem my_mergesort_split_overflow:
  "c_int (- 2) \<and> c_int 2147483647 \<and> (- 2 :: int) < 2147483647
   \<and> \<not> c_int (2147483647 - (- 2))
   \<and> midpoint (- 2) 2147483647 = None
   \<and> my_mergesort (- 2) 2147483647 \<lparr>A = [], B = []\<rparr> = None
   \<and> (2147483647 - (- 2) - 2 ^ 32 :: int) = - 2147483647
   \<and> (- 2) + (- 2147483647) sdiv 2 = (- 1073741825 :: int)
   \<and> (- 1073741825 :: int) < - 2"
  by (simp add: my_mergesort.simps midpoint_def c_int_def signed_divide_int_def)

text \<open>
  Claim C6 (frame of merge). The adjacency precondition of \<open>merge\<close> is that
  \<open>[leftstart, leftend]\<close> and \<open>[rightstart, rightend]\<close> are two adjacent ranges, together
  the range \<open>[leftstart, rightend]\<close> of the arrays: \<open>0 \<le> leftstart \<le> leftend + 1 =
  rightstart \<le> rightend + 1\<close>, with \<open>rightend\<close> inside \<open>A\<close> and \<open>B\<close>. Every call that satisfies
  it returns and leaves every element of the scratch buffer \<open>B\<close> outside
  \<open>[leftstart, rightend]\<close> as it was; and every call of \<open>merge\<close> that returns, so every such
  call, leaves the lengths of both arrays and every element of the dataset \<open>A\<close> outside
  \<open>[leftstart, rightend]\<close> as they were.
\<close>

theorem merge_frame:
  "(\<forall>s'. merge leftstart leftend rightstart rightend s = Some s' \<longrightarrow>
       length (A s') = length (A s) \<and> length (B s') = length (B s)
       \<and> (\<forall>n < length (A s). int n < leftstart \<or> rightend < int n \<longrightarrow> A s' ! n = A s ! n))
   \<and> (merge_ranges_ok leftstart leftend rightstart rightend s \<longrightarrow>
        (\<exists>s'. merge leftstart leftend rightstart rightend s = Some s'
           \<and> (\<forall>n < length (B s). int n < leftstart \<or> rightend < int n \<longrightarrow> B s' ! n = B s ! n)))"
proof (rule conjI)
  show "\<forall>s'. merge leftstart leftend rightstart rightend s = Some s' \<longrightarrow>
       length (A s') = length (A s) \<and> length (B s') = length (B s)
       \<and> (\<forall>n < length (A s). int n < leftstart \<or> rightend < int n \<longrightarrow> A s' ! n = A s ! n)"
  proof (rule allI, rule impI)
    fix s'
    assume run: "merge leftstart leftend rightstart rightend s = Some s'"
    note bnd = merge_Some_A [OF run]
    show "length (A s') = length (A s) \<and> length (B s') = length (B s)
          \<and> (\<forall>n < length (A s). int n < leftstart \<or> rightend < int n \<longrightarrow> A s' ! n = A s ! n)"
      using bnd(5,6) nth_outside_block [OF bnd(5) bnd(7) bnd(8)] by blast
  qed
next
  show "merge_ranges_ok leftstart leftend rightstart rightend s \<longrightarrow>
        (\<exists>s'. merge leftstart leftend rightstart rightend s = Some s'
           \<and> (\<forall>n < length (B s). int n < leftstart \<or> rightend < int n \<longrightarrow> B s' ! n = B s ! n))"
  proof (rule impI)
  assume ok: "merge_ranges_ok leftstart leftend rightstart rightend s"
  define M where "M = merged (slice (A s) leftstart leftend) (slice (A s) rightstart rightend)"
  define s' where "s' = s\<lparr>A := take (nat leftstart) (A s) @ M @ drop (nat (rightend + 1)) (A s),
                         B := take (nat leftstart) (B s) @ M @ drop (nat (rightend + 1)) (B s)\<rparr>"
  have run: "merge leftstart leftend rightstart rightend s = Some s'"
    using merge_range [OF ok] by (simp add: s'_def M_def)
  from ok have b: "0 \<le> leftstart" "leftstart \<le> leftend + 1" "rightstart = leftend + 1"
    "rightstart \<le> rightend + 1" "rightend < int (length (A s))" "rightend < int (length (B s))"
    by (simp_all add: merge_ranges_ok_def)
  have lenM: "length M = nat (rightend + 1 - leftstart)"
    using b by (simp add: M_def length_merged length_slice; linarith)
  define front where "front = take (nat leftstart) (B s) @ M"
  have lt: "length (take (nat leftstart) (B s)) = nat leftstart"
    using b by (simp; linarith)
  have lf: "length front = nat (rightend + 1)"
    using lenM lt b unfolding front_def by (simp; linarith)
  have B': "B s' = front @ drop (nat (rightend + 1)) (B s)"
    by (simp add: s'_def front_def)
  have "take (nat leftstart) (B s') = take (nat leftstart) (B s)"
    using lt by (simp add: s'_def)
  moreover have "drop (nat (rightend + 1)) (B s') = drop (nat (rightend + 1)) (B s)"
    using B' lf by (metis append_eq_conv_conj)
  moreover have "length (B s') = length (B s)"
    using merge_Some_A(6) [OF run] .
  ultimately have "\<forall>n < length (B s). int n < leftstart \<or> rightend < int n \<longrightarrow> B s' ! n = B s ! n"
    using nth_outside_block [of "B s'" "B s" leftstart rightend] by blast
  with run show "\<exists>s'. merge leftstart leftend rightstart rightend s = Some s'
           \<and> (\<forall>n < length (B s). int n < leftstart \<or> rightend < int n \<longrightarrow> B s' ! n = B s ! n)"
    by blast
  qed
qed

theorem merge_frame_witness:
  "merge_ranges_ok 1 1 2 3 \<lparr>A = [7, 5, 2, 6, 1], B = [9, 9, 9, 9, 9]\<rparr>
   \<and> (\<exists>s'. merge 1 1 2 3 \<lparr>A = [7, 5, 2, 6, 1], B = [9, 9, 9, 9, 9]\<rparr> = Some s'
         \<and> length (A s') = 5 \<and> length (B s') = 5
         \<and> A s' ! 0 = 7 \<and> A s' ! 4 = 1 \<and> B s' ! 0 = 9 \<and> B s' ! 4 = 9)"
proof -
  let ?s = "\<lparr>A = [7, 5, 2, 6, 1], B = [9, 9, 9, 9, 9]\<rparr>"
  have ok: "merge_ranges_ok 1 1 2 3 ?s" by (simp add: merge_ranges_ok_def)
  note inst = merge_frame [of 1 1 2 3 ?s]
  from inst ok obtain s' where run: "merge 1 1 2 3 ?s = Some s'"
    and frameB: "\<forall>n < length (B ?s). int n < 1 \<or> 3 < int n \<longrightarrow> B s' ! n = B ?s ! n"
    by blast
  from inst run have lens: "length (A s') = length (A ?s)" "length (B s') = length (B ?s)"
    and frameA: "\<forall>n < length (A ?s). int n < 1 \<or> 3 < int n \<longrightarrow> A s' ! n = A ?s ! n"
    by blast+
  have "A s' ! 0 = 7" "A s' ! 4 = 1"
    using frameA [rule_format, of 0] frameA [rule_format, of 4] by simp_all
  moreover have "B s' ! 0 = 9" "B s' ! 4 = 9"
    using frameB [rule_format, of 0] frameB [rule_format, of 4] by simp_all
  ultimately show ?thesis using ok run lens by simp
qed

text \<open>
  Claim C7 (trivial range). For every descriptor with \<open>left \<ge> right\<close> and every cutoff,
  \<open>parallel_mergesort\<close> returns the state it was given, whatever the arrays, the
  indices and the threads the system would create are: no element of the dataset or of
  the scratch buffer changes. A dataset of
  one element is left as it is by the sort, and the driver's \<open>is_sorted(1)\<close> answers true
  on it.
\<close>

theorem parallel_mergesort_trivial:
  "(right a \<le> left a \<longrightarrow> parallel_mergesort cutoff created a s = Some s)
   \<and> (length (A s) = 1 \<longrightarrow>
        parallel_mergesort cutoff created \<lparr>left = 0, right = 0, level = 0\<rparr> s = Some s
        \<and> is_sorted 1 s = Some True)"
proof -
  have triv: "parallel_mergesort cutoff created d s = Some s" if "right d \<le> left d" for d
    using that by (subst parallel_mergesort.simps) simp
  have "is_sorted 1 s = Some True"
    unfolding is_sorted_def by (subst is_sorted_loop.simps) simp
  with triv show ?thesis by simp
qed

theorem parallel_mergesort_trivial_witness:
  "(2::int) \<le> 5
   \<and> parallel_mergesort 3 (\<lambda>d. True) \<lparr>left = 5, right = 2, level = 1\<rparr> \<lparr>A = [4, 1], B = [0, 0]\<rparr>
       = Some \<lparr>A = [4, 1], B = [0, 0]\<rparr>
   \<and> length (A \<lparr>A = [42], B = [0]\<rparr>) = 1
   \<and> parallel_mergesort 0 (\<lambda>d. False) \<lparr>left = 0, right = 0, level = 0\<rparr> \<lparr>A = [42], B = [0]\<rparr>
       = Some \<lparr>A = [42], B = [0]\<rparr>
   \<and> is_sorted 1 \<lparr>A = [42], B = [0]\<rparr> = Some True"
  using parallel_mergesort_trivial [of "\<lparr>left = 5, right = 2, level = 1\<rparr>" 3 "\<lambda>d. True"
          "\<lparr>A = [4, 1], B = [0, 0]\<rparr>"]
    parallel_mergesort_trivial [of "\<lparr>left = 0, right = 0, level = 0\<rparr>" 0 "\<lambda>d. False"
          "\<lparr>A = [42], B = [0]\<rparr>"]
  by simp



text \<open>
  Claim C9 (idempotence). For every dataset \<open>A\<close> that is already sorted ascending and
  every cutoff \<open>\<ge> 0\<close>, whichever threads the system creates: with a scratch buffer at
  least as long as the dataset the sort returns, and whenever it returns the resulting
  dataset is the input dataset, element for element.
\<close>

theorem sort_idempotent:
  assumes "sorted (A s)" and "0 \<le> cutoff"
  shows "(length (A s) \<le> length (B s) \<longrightarrow>
            (\<exists>s'. parallel_mergesort cutoff created
                     \<lparr>left = 0, right = int (length (A s)) - 1, level = 0\<rparr> s = Some s'))
       \<and> (\<forall>s'. parallel_mergesort cutoff created
                   \<lparr>left = 0, right = int (length (A s)) - 1, level = 0\<rparr> s = Some s' \<longrightarrow>
            A s' = A s)"
proof (rule conjI)
  show "length (A s) \<le> length (B s) \<longrightarrow>
          (\<exists>s'. parallel_mergesort cutoff created
                   \<lparr>left = 0, right = int (length (A s)) - 1, level = 0\<rparr> s = Some s')"
    using parallel_mergesort_whole [of s cutoff created] by simp
next
  show "\<forall>s'. parallel_mergesort cutoff created
                   \<lparr>left = 0, right = int (length (A s)) - 1, level = 0\<rparr> s = Some s' \<longrightarrow>
            A s' = A s"
  proof (rule allI, rule impI)
    fix s'
    assume "parallel_mergesort cutoff created
              \<lparr>left = 0, right = int (length (A s)) - 1, level = 0\<rparr> s = Some s'"
    then have "A s' = par_sort cutoff created
                        \<lparr>left = 0, right = int (length (A s)) - 1, level = 0\<rparr> (A s)"
      by (rule parallel_mergesort_root_Some)
    with assms(1) show "A s' = A s" by (simp add: par_sort_sorted)
  qed
qed

theorem sort_idempotent_witness:
  "sorted (A \<lparr>A = [1, 2, 2, 7], B = [0, 0, 0, 0]\<rparr>) \<and> (0::int) \<le> 2
   \<and> length (A \<lparr>A = [1, 2, 2, 7], B = [0, 0, 0, 0]\<rparr>)
       \<le> length (B \<lparr>A = [1, 2, 2, 7], B = [0, 0, 0, 0]\<rparr>)
   \<and> (\<exists>s'. parallel_mergesort 2 (\<lambda>d. True) \<lparr>left = 0, right = 3, level = 0\<rparr>
               \<lparr>A = [1, 2, 2, 7], B = [0, 0, 0, 0]\<rparr> = Some s'
           \<and> A s' = [1, 2, 2, 7])
   \<and> (\<exists>s'. parallel_mergesort 2 (\<lambda>d. level d \<noteq> 1) \<lparr>left = 0, right = 3, level = 0\<rparr>
               \<lparr>A = [1, 2, 2, 7], B = [0, 0, 0, 0]\<rparr> = Some s'
           \<and> A s' = [1, 2, 2, 7])"
proof -
  let ?s = "\<lparr>A = [1, 2, 2, 7], B = [0, 0, 0, 0]\<rparr>"
  have srt: "sorted (A ?s)" and cut: "(0::int) \<le> 2" and fits: "length (A ?s) \<le> length (B ?s)"
    by simp_all
  have part: "\<exists>s'. parallel_mergesort 2 created \<lparr>left = 0, right = 3, level = 0\<rparr> ?s = Some s'
           \<and> A s' = [1, 2, 2, 7]" for created
  proof -
    note inst = sort_idempotent [OF srt cut, of created]
    from inst fits obtain s' where
      run: "parallel_mergesort 2 created \<lparr>left = 0, right = 3, level = 0\<rparr> ?s = Some s'"
      by auto
    with inst have "A s' = [1, 2, 2, 7]" by simp
    with run show ?thesis by blast
  qed
  from srt cut fits part [of "\<lambda>d. True"] part [of "\<lambda>d. level d \<noteq> 1"] show ?thesis
    by blast
qed

text \<open>
  Claim C10 (the scratch buffer's initial contents do not matter). Take two states with
  the same dataset \<open>A\<close> and any scratch buffers, and two runs with the same cutoff in
  which the system creates the same threads. Whenever the sort returns on both, the
  resulting dataset \<open>A\<close> is the same; and it does return on both when each scratch buffer
  is at least as long as the dataset. The reason is in \<open>merge\<close>: two calls with
  \<open>rightstart = leftend + 1\<close> on such states that both return yield the same \<open>A\<close>, whatever
  \<open>B\<close> held before; and on adjacent index ranges of both arrays the calls do return, and
  the block \<open>B[leftstart..rightend]\<close> they copy back is the same.
\<close>

theorem scratch_independence:
  assumes "A s1 = A s2"
  shows "(\<forall>t1 t2. parallel_mergesort cutoff created
                     \<lparr>left = 0, right = int (length (A s1)) - 1, level = 0\<rparr> s1 = Some t1
               \<and> parallel_mergesort cutoff created
                     \<lparr>left = 0, right = int (length (A s2)) - 1, level = 0\<rparr> s2 = Some t2
               \<longrightarrow> A t1 = A t2)
       \<and> (length (A s1) \<le> length (B s1) \<and> length (A s2) \<le> length (B s2) \<longrightarrow>
            (\<exists>t1 t2. parallel_mergesort cutoff created
                        \<lparr>left = 0, right = int (length (A s1)) - 1, level = 0\<rparr> s1 = Some t1
                 \<and> parallel_mergesort cutoff created
                        \<lparr>left = 0, right = int (length (A s2)) - 1, level = 0\<rparr> s2 = Some t2))
       \<and> (rightstart = leftend + 1 \<longrightarrow>
            (\<forall>u1 u2. merge leftstart leftend rightstart rightend s1 = Some u1
                 \<and> merge leftstart leftend rightstart rightend s2 = Some u2
                 \<longrightarrow> A u1 = A u2))
       \<and> (merge_ranges_ok leftstart leftend rightstart rightend s1
           \<and> merge_ranges_ok leftstart leftend rightstart rightend s2 \<longrightarrow>
            (\<exists>u1 u2. merge leftstart leftend rightstart rightend s1 = Some u1
                 \<and> merge leftstart leftend rightstart rightend s2 = Some u2
                 \<and> slice (B u1) leftstart rightend = slice (B u2) leftstart rightend))"
proof (intro conjI)
  show "\<forall>t1 t2. parallel_mergesort cutoff created
                     \<lparr>left = 0, right = int (length (A s1)) - 1, level = 0\<rparr> s1 = Some t1
               \<and> parallel_mergesort cutoff created
                     \<lparr>left = 0, right = int (length (A s2)) - 1, level = 0\<rparr> s2 = Some t2
               \<longrightarrow> A t1 = A t2"
  proof (intro allI impI)
    fix t1 t2
    assume runs: "parallel_mergesort cutoff created
                     \<lparr>left = 0, right = int (length (A s1)) - 1, level = 0\<rparr> s1 = Some t1
               \<and> parallel_mergesort cutoff created
                     \<lparr>left = 0, right = int (length (A s2)) - 1, level = 0\<rparr> s2 = Some t2"
    then have "A t1 = par_sort cutoff created
                        \<lparr>left = 0, right = int (length (A s1)) - 1, level = 0\<rparr> (A s1)"
      and "A t2 = par_sort cutoff created
                        \<lparr>left = 0, right = int (length (A s2)) - 1, level = 0\<rparr> (A s2)"
      using parallel_mergesort_root_Some [of cutoff created s1 t1]
        parallel_mergesort_root_Some [of cutoff created s2 t2]
      by blast+
    with assms show "A t1 = A t2" by simp
  qed
next
  show "length (A s1) \<le> length (B s1) \<and> length (A s2) \<le> length (B s2) \<longrightarrow>
            (\<exists>t1 t2. parallel_mergesort cutoff created
                        \<lparr>left = 0, right = int (length (A s1)) - 1, level = 0\<rparr> s1 = Some t1
                 \<and> parallel_mergesort cutoff created
                        \<lparr>left = 0, right = int (length (A s2)) - 1, level = 0\<rparr> s2 = Some t2)"
    using parallel_mergesort_whole [of s1 cutoff created] parallel_mergesort_whole [of s2 cutoff created]
    by simp
next
  show "rightstart = leftend + 1 \<longrightarrow>
            (\<forall>u1 u2. merge leftstart leftend rightstart rightend s1 = Some u1
                 \<and> merge leftstart leftend rightstart rightend s2 = Some u2
                 \<longrightarrow> A u1 = A u2)"
  proof (intro impI allI)
    fix u1 u2
    assume adj: "rightstart = leftend + 1"
      and runs: "merge leftstart leftend rightstart rightend s1 = Some u1
                 \<and> merge leftstart leftend rightstart rightend s2 = Some u2"
    from runs have r1: "merge leftstart leftend rightstart rightend s1 = Some u1"
      and r2: "merge leftstart leftend rightstart rightend s2 = Some u2"
      by simp_all
    show "A u1 = A u2"
      unfolding merge_Some_A_determined [OF r1 adj] merge_Some_A_determined [OF r2 adj]
      by (simp only: assms)
  qed
next
  show "merge_ranges_ok leftstart leftend rightstart rightend s1
           \<and> merge_ranges_ok leftstart leftend rightstart rightend s2 \<longrightarrow>
            (\<exists>u1 u2. merge leftstart leftend rightstart rightend s1 = Some u1
                 \<and> merge leftstart leftend rightstart rightend s2 = Some u2
                 \<and> slice (B u1) leftstart rightend = slice (B u2) leftstart rightend)"
  proof (rule impI)
    assume ok: "merge_ranges_ok leftstart leftend rightstart rightend s1
                \<and> merge_ranges_ok leftstart leftend rightstart rightend s2"
    define M where "M = merged (slice (A s1) leftstart leftend) (slice (A s1) rightstart rightend)"
    from ok have b: "0 \<le> leftstart" "leftstart \<le> leftend + 1" "rightstart = leftend + 1"
      "rightstart \<le> rightend + 1" "rightend < int (length (A s1))"
      "rightend < int (length (B s1))" "rightend < int (length (B s2))"
      by (simp_all add: merge_ranges_ok_def)
    have lenM: "length M = nat (rightend + 1 - leftstart)"
      using b by (simp add: M_def length_merged length_slice; linarith)
    have win: "slice (take (nat leftstart) bs @ M @ rest) leftstart rightend = M"
      if "rightend < int (length bs)" for bs rest :: "int list"
      using that b lenM by (intro slice_parts) (simp; linarith)+
    show "\<exists>u1 u2. merge leftstart leftend rightstart rightend s1 = Some u1
                 \<and> merge leftstart leftend rightstart rightend s2 = Some u2
                 \<and> slice (B u1) leftstart rightend = slice (B u2) leftstart rightend"
      using merge_range [of leftstart leftend rightstart rightend s1]
        merge_range [of leftstart leftend rightstart rightend s2] ok assms
        win [OF b(6)] win [OF b(7)]
      by (simp add: M_def)
  qed
qed

theorem scratch_independence_witness:
  "A \<lparr>A = [3, 1, 2], B = [0, 0, 0]\<rparr> = A \<lparr>A = [3, 1, 2], B = [7, 8, 9, 6]\<rparr>
   \<and> length (A \<lparr>A = [3, 1, 2], B = [0, 0, 0]\<rparr>) \<le> length (B \<lparr>A = [3, 1, 2], B = [0, 0, 0]\<rparr>)
   \<and> length (A \<lparr>A = [3, 1, 2], B = [7, 8, 9, 6]\<rparr>)
       \<le> length (B \<lparr>A = [3, 1, 2], B = [7, 8, 9, 6]\<rparr>)
   \<and> (\<exists>t1 t2. parallel_mergesort 1 (\<lambda>d. left d = 0) \<lparr>left = 0, right = 2, level = 0\<rparr>
                  \<lparr>A = [3, 1, 2], B = [0, 0, 0]\<rparr> = Some t1
            \<and> parallel_mergesort 1 (\<lambda>d. left d = 0) \<lparr>left = 0, right = 2, level = 0\<rparr>
                  \<lparr>A = [3, 1, 2], B = [7, 8, 9, 6]\<rparr> = Some t2
            \<and> A t1 = A t2)
   \<and> (1::int) = 0 + 1
   \<and> merge_ranges_ok 0 0 1 2 \<lparr>A = [3, 1, 2], B = [0, 0, 0]\<rparr>
   \<and> merge_ranges_ok 0 0 1 2 \<lparr>A = [3, 1, 2], B = [7, 8, 9, 6]\<rparr>
   \<and> (\<exists>u1 u2. merge 0 0 1 2 \<lparr>A = [3, 1, 2], B = [0, 0, 0]\<rparr> = Some u1
            \<and> merge 0 0 1 2 \<lparr>A = [3, 1, 2], B = [7, 8, 9, 6]\<rparr> = Some u2
            \<and> A u1 = A u2 \<and> slice (B u1) 0 2 = slice (B u2) 0 2)"
proof -
  let ?s1 = "\<lparr>A = [3, 1, 2], B = [0, 0, 0]\<rparr>"
  let ?s2 = "\<lparr>A = [3, 1, 2], B = [7, 8, 9, 6]\<rparr>"
  have same: "A ?s1 = A ?s2" by simp
  have fits: "length (A ?s1) \<le> length (B ?s1) \<and> length (A ?s2) \<le> length (B ?s2)" by simp
  have adj: "(1::int) = 0 + 1" by simp
  have ok: "merge_ranges_ok 0 0 1 2 ?s1 \<and> merge_ranges_ok 0 0 1 2 ?s2"
    by (simp add: merge_ranges_ok_def)
  note inst = scratch_independence [OF same, of 1 "\<lambda>d. left d = 0" 1 0 0 2]
  from inst fits obtain t1 t2 where
    sorts: "parallel_mergesort 1 (\<lambda>d. left d = 0) \<lparr>left = 0, right = 2, level = 0\<rparr> ?s1 = Some t1"
      "parallel_mergesort 1 (\<lambda>d. left d = 0) \<lparr>left = 0, right = 2, level = 0\<rparr> ?s2 = Some t2"
    by auto
  with inst have "A t1 = A t2" by simp
  with sorts have sort_part:
    "\<exists>t1 t2. parallel_mergesort 1 (\<lambda>d. left d = 0) \<lparr>left = 0, right = 2, level = 0\<rparr> ?s1 = Some t1
            \<and> parallel_mergesort 1 (\<lambda>d. left d = 0) \<lparr>left = 0, right = 2, level = 0\<rparr> ?s2 = Some t2
            \<and> A t1 = A t2"
    by blast
  from inst ok obtain u1 u2 where run: "merge 0 0 1 2 ?s1 = Some u1" "merge 0 0 1 2 ?s2 = Some u2"
    and blk: "slice (B u1) 0 2 = slice (B u2) 0 2"
    by blast
  from inst adj run have "A u1 = A u2" by blast
  with run blk have merge_part:
    "\<exists>u1 u2. merge 0 0 1 2 ?s1 = Some u1 \<and> merge 0 0 1 2 ?s2 = Some u2
            \<and> A u1 = A u2 \<and> slice (B u1) 0 2 = slice (B u2) 0 2"
    by blast
  from same fits adj ok sort_part merge_part show ?thesis by blast
qed

end
